theory Spec2Isabelle
  imports Main "HOL-Library.Word" "HOL-Library.AList"
begin

unbundle bit_operations_syntax

section \<open>The chequebook service of pkg/settlement/swap/chequebook/chequebook.go\<close>

text \<open>
  The service issues cheques against an on-chain chequebook contract. It keeps, in a
  key/value state store, the last cheque issued to every beneficiary and the running total
  of everything issued. The model is a shallow embedding with explicit state passing:
  the state store and the calls made to the signer, to the delivery function and to the
  transaction service are fields of a \<open>world\<close> record, every operation takes the world and
  returns its result together with the new world, and every Go \<open>error\<close> return is a value
  of the sum type \<open>error + 'a\<close> (or \<open>error option\<close> for a function that returns only an
  error). Go's \<open>*big.Int\<close> is \<open>int\<close>. The mutex of \<open>Issue\<close> and the \<open>context.Context\<close> have
  no counterpart: the model is sequential.
\<close>

subsection \<open>Data\<close>

type_synonym byte = "8 word"

text \<open>\<open>common.Address\<close> is \<open>[20]byte\<close> and \<open>common.Hash\<close> is \<open>[32]byte\<close>; they are byte
  lists here, of length 20 whenever they come out of \<open>BytesToAddress\<close>.\<close>

type_synonym address = "byte list"
type_synonym hash = "byte list"

datatype error =
    ErrOutOfFunds
  | ErrInsufficientFunds
  | ErrNoCheque
  | ErrTransactionReverted
  | ErrNotFound
  | ErrNoBeneficiaryInKey
  | ErrWrap string error
  | ErrExternal string

text \<open>
  \<open>ErrOutOfFunds\<close> and \<open>ErrInsufficientFunds\<close> are the two errors of chequebook.go;
  \<open>ErrNoCheque\<close> and \<open>ErrTransactionReverted\<close> are the package's other sentinel errors;
  \<open>ErrNotFound\<close> is \<open>storage.ErrNotFound\<close>; \<open>ErrNoBeneficiaryInKey\<close> is
  \<open>errors.New("no beneficiary in key")\<close> of \<open>keyBeneficiary\<close>; \<open>ErrWrap msg err\<close> is
  \<open>fmt.Errorf("...: %w", err)\<close>; \<open>ErrExternal msg\<close> is any fault raised inside the state
  store (a failed read or write, a value that does not unmarshal).
\<close>

text \<open>
  Modelled from the spec: the types \<open>Cheque\<close>, \<open>SignedCheque\<close> and \<open>TxRequest\<close> of the
  package, whose declarations are in files that are not among the sources. The spec's data
  model gives a cheque its contract, its beneficiary and its cumulative payout, and a
  signed cheque a cheque and a signature; the field names are those that chequebook.go
  uses when it builds the values.
\<close>

record cheque =
  Chequebook :: address
  Beneficiary :: address
  CumulativePayout :: int

record signedCheque =
  Cheque :: cheque
  Signature :: "byte list"

record txRequest =
  To :: address
  Data :: "byte list"
  GasPrice :: "int option"
  GasLimit :: nat
  Value :: int

datatype abi_arg = ArgAddress address | ArgUint int

text \<open>The fields of the Go \<open>service\<close> struct that are plain data.\<close>

record service =
  address :: address
  ownerAddress :: address
  erc20Address :: address

text \<open>
  The other fields of the Go \<open>service\<close> struct are collaborators behind interfaces
  (\<open>chequebookInstance\<close>, \<open>erc20Instance\<close>, \<open>chequeSigner\<close>, \<open>transactionService\<close>, the two
  ABIs). Each is called at most once by one operation of the service, so what they answer
  during one operation is a record of answers, one per method.
\<close>

record env =
  Balance :: "error + int"
  TotalPaidOut :: "error + int"
  BalanceOf :: "address \<Rightarrow> error + int"
  Sign :: "cheque \<Rightarrow> error + byte list"
  erc20Pack :: "string \<Rightarrow> abi_arg list \<Rightarrow> error + byte list"
  chequebookPack :: "string \<Rightarrow> abi_arg list \<Rightarrow> error + byte list"
  Send :: "txRequest \<Rightarrow> error + hash"
  WaitForReceipt :: "hash \<Rightarrow> error + nat"

text \<open>\<open>WaitForReceipt\<close> answers with the \<open>Status\<close> field of the receipt, the only field
  the service reads.\<close>

subsection \<open>The state store\<close>

text \<open>
  Modelled from the spec: the state store (\<open>storage.StateStorer\<close> of pkg/storage, which is
  not among the sources). The spec gives its contract: \<open>get(key) \<rightarrow> value | NotFound\<close>,
  \<open>put(key, value)\<close>, \<open>iterate(keyPrefix, visit(key, value) \<rightarrow> stop)\<close>, and says that storage
  faults are surfaced to the caller. The store is an association list from keys to the
  values that were put. A value is read back into the type of the variable handed to
  \<open>Get\<close>; a value of the other type does not unmarshal, which is a fault. \<open>Issue\<close> puts a
  \<open>Cheque\<close> and \<open>LastCheque\<close> reads a \<open>SignedCheque\<close>: the \<open>Cheque\<close> fields are read back
  and the signature, which was never written, is empty.

  Faults are scheduled: \<open>faults\<close> lists, for the store calls to come, whether the call
  fails (\<open>Some msg\<close>) or goes through (\<open>None\<close>); past the end of the list every call
  goes through. A call that fails changes nothing in the store.
\<close>

datatype stored = StoredCheque cheque | StoredInt int

record world =
  kv :: "(string \<times> stored) list"
  faults :: "string option list"
  signedLog :: "cheque list"
  deliveredLog :: "signedCheque list"
  sentLog :: "txRequest list"

text \<open>\<open>signedLog\<close>, \<open>deliveredLog\<close> and \<open>sentLog\<close> record the arguments of every call
  to the signer, to the delivery function and to \<open>transactionService.Send\<close>, in order.\<close>

definition next_fault :: "world \<Rightarrow> string option \<times> world" where
  "next_fault w =
     (case faults w of
        [] \<Rightarrow> (None, w)
      | f # fs \<Rightarrow> (f, w\<lparr>faults := fs\<rparr>))"

fun as_int :: "stored \<Rightarrow> error + int" where
  "as_int (StoredInt n) = Inr n"
| "as_int (StoredCheque c) = Inl (ErrExternal ''unmarshal'')"

fun as_signedCheque :: "stored \<Rightarrow> error + signedCheque" where
  "as_signedCheque (StoredCheque c) = Inr \<lparr>Cheque = c, Signature = []\<rparr>"
| "as_signedCheque (StoredInt n) = Inl (ErrExternal ''unmarshal'')"

definition store_Get :: "(stored \<Rightarrow> error + 'a) \<Rightarrow> string \<Rightarrow> world \<Rightarrow> (error + 'a) \<times> world" where
  "store_Get decode key w =
     (case next_fault w of
        (Some msg, w') \<Rightarrow> (Inl (ErrExternal msg), w')
      | (None, w') \<Rightarrow>
          (case map_of (kv w') key of
             None \<Rightarrow> (Inl ErrNotFound, w')
           | Some v \<Rightarrow> (decode v, w')))"

definition store_Put :: "string \<Rightarrow> stored \<Rightarrow> world \<Rightarrow> error option \<times> world" where
  "store_Put key v w =
     (case next_fault w of
        (Some msg, w') \<Rightarrow> (Some (ErrExternal msg), w')
      | (None, w') \<Rightarrow> (None, w'\<lparr>kv := AList.update key v (kv w')\<rparr>))"

fun HasPrefix :: "string \<Rightarrow> string \<Rightarrow> bool" where
  "HasPrefix s [] = True"
| "HasPrefix [] (p # ps) = False"
| "HasPrefix (c # cs) (p # ps) = (c = p \<and> HasPrefix cs ps)"

text \<open>The visiting function gets the key, the value, its own accumulator (the variables the
  Go closure captures) and the world; it answers an error, or whether to stop and the new
  accumulator.\<close>

fun iterate_loop ::
  "(string \<Rightarrow> stored \<Rightarrow> 'a \<Rightarrow> world \<Rightarrow> (error + bool \<times> 'a) \<times> world) \<Rightarrow>
   (string \<times> stored) list \<Rightarrow> 'a \<Rightarrow> world \<Rightarrow> (error + 'a) \<times> world" where
  "iterate_loop f [] acc w = (Inr acc, w)"
| "iterate_loop f ((k, v) # rest) acc w =
     (case f k v acc w of
        (Inl err, w') \<Rightarrow> (Inl err, w')
      | (Inr (stop, acc'), w') \<Rightarrow>
          if stop then (Inr acc', w') else iterate_loop f rest acc' w')"

definition store_Iterate ::
  "string \<Rightarrow> (string \<Rightarrow> stored \<Rightarrow> 'a \<Rightarrow> world \<Rightarrow> (error + bool \<times> 'a) \<times> world) \<Rightarrow>
   'a \<Rightarrow> world \<Rightarrow> (error + 'a) \<times> world" where
  "store_Iterate pfx f acc w =
     (case next_fault w of
        (Some msg, w') \<Rightarrow> (Inl (ErrExternal msg), w')
      | (None, w') \<Rightarrow>
          iterate_loop f (filter (\<lambda>(k, v). HasPrefix k pfx) (kv w')) acc w')"

subsection \<open>Keys\<close>

definition lastIssuedChequeKeyPrefix :: string where
  "lastIssuedChequeKeyPrefix = ''chequebook_last_issued_cheque_''"

definition totalIssuedKey :: string where
  "totalIssuedKey = ''chequebook_total_issued_''"

text \<open>\<open>fmt.Sprintf("%x", beneficiary)\<close>: two lower-case hexadecimal digits for each byte
  of the address.\<close>

definition hexdigit :: "nat \<Rightarrow> char" where
  "hexdigit n = ''0123456789abcdef'' ! n"

definition hex_byte :: "byte \<Rightarrow> string" where
  "hex_byte b = [hexdigit (unat (drop_bit 4 b)), hexdigit (unat (b AND 15))]"

definition hex_encode :: "byte list \<Rightarrow> string" where
  "hex_encode bs = concat (map hex_byte bs)"

definition lastIssuedChequeKey :: "address \<Rightarrow> string" where
  "lastIssuedChequeKey beneficiary = ''chequebook_last_issued_cheque_'' @ hex_encode beneficiary"

text \<open>
  \<open>common.HexToAddress\<close> of go-ethereum: \<open>BytesToAddress(FromHex(s))\<close>. \<open>FromHex\<close> drops a
  leading \<open>0x\<close> or \<open>0X\<close>, pads a string of odd length with a leading \<open>0\<close> and decodes with
  \<open>Hex2Bytes\<close>, which keeps the bytes that \<open>hex.DecodeString\<close> decoded before the first
  character that is no hexadecimal digit and drops the error. \<open>BytesToAddress\<close> keeps the
  last 20 bytes and pads with zero bytes on the left. None of them can fail.
\<close>

definition fromHexChar :: "char \<Rightarrow> byte option" where
  "fromHexChar c =
     (let n = (of_char c :: nat) in
      if 48 \<le> n \<and> n \<le> 57 then Some (of_nat (n - 48))
      else if 97 \<le> n \<and> n \<le> 102 then Some (of_nat (n - 97 + 10))
      else if 65 \<le> n \<and> n \<le> 70 then Some (of_nat (n - 65 + 10))
      else None)"

fun hex_Decode :: "string \<Rightarrow> byte list" where
  "hex_Decode (p # q # rest) =
     (case fromHexChar p of
        None \<Rightarrow> []
      | Some a \<Rightarrow>
          (case fromHexChar q of
             None \<Rightarrow> []
           | Some b \<Rightarrow> (push_bit 4 a OR b) # hex_Decode rest))"
| "hex_Decode [p] = []"
| "hex_Decode [] = []"

definition FromHex :: "string \<Rightarrow> byte list" where
  "FromHex s =
     (let s1 = (if length s > 1 \<and> (take 2 s = ''0x'' \<or> take 2 s = ''0X'') then drop 2 s else s);
          s2 = (if odd (length s1) then CHR ''0'' # s1 else s1)
      in hex_Decode s2)"

definition BytesToAddress :: "byte list \<Rightarrow> address" where
  "BytesToAddress b =
     (let b' = (if length b > 20 then drop (length b - 20) b else b)
      in replicate (20 - length b') 0 @ b')"

definition HexToAddress :: "string \<Rightarrow> address" where
  "HexToAddress s = BytesToAddress (FromHex s)"

text \<open>\<open>strings.Index\<close> and \<open>strings.SplitAfter\<close> for a separator that is not empty (the only
  separator the service uses is the key prefix): the pieces end after each occurrence of the
  separator, found from left to right without overlap.\<close>

fun Index :: "string \<Rightarrow> string \<Rightarrow> nat option" where
  "Index [] sep = (if sep = [] then Some 0 else None)"
| "Index (c # cs) sep =
     (if HasPrefix (c # cs) sep then Some 0 else map_option Suc (Index cs sep))"

function SplitAfter :: "string \<Rightarrow> string \<Rightarrow> string list" where
  "SplitAfter s sep =
     (if sep = [] then map (\<lambda>c. [c]) s
      else case Index s sep of
             None \<Rightarrow> [s]
           | Some m \<Rightarrow> take (m + length sep) s # SplitAfter (drop (m + length sep) s) sep)"
  by pat_completeness auto

termination SplitAfter
proof (relation "measure (\<lambda>(s, sep). length s)")
  show "wf (measure (\<lambda>(s, sep). length s))" by simp
next
  fix s sep :: string and m :: nat
  assume "sep \<noteq> []" and "Index s sep = Some m"
  then have "s \<noteq> []" by (cases s) auto
  with \<open>sep \<noteq> []\<close> show "((drop (m + length sep) s, sep), (s, sep)) \<in> measure (\<lambda>(s, sep). length s)"
    by (cases s; cases sep) auto
qed

declare SplitAfter.simps [simp del]

definition keyBeneficiary :: "string \<Rightarrow> string \<Rightarrow> error + address" where
  "keyBeneficiary key pfx =
     (let split = SplitAfter key pfx in
      if length split \<noteq> 2 then Inl ErrNoBeneficiaryInKey
      else Inr (HexToAddress (split ! 1)))"

subsection \<open>The operations of the service\<close>

text \<open>\<open>totalIssued\<close>: the counter, zero when the store has none.\<close>

definition totalIssued :: "world \<Rightarrow> (error + int) \<times> world" where
  "totalIssued w =
     (case store_Get as_int totalIssuedKey w of
        (Inl err, w') \<Rightarrow> (if err \<noteq> ErrNotFound then (Inl err, w') else (Inr 0, w'))
      | (Inr issued, w') \<Rightarrow> (Inr issued, w'))"

definition AvailableBalance :: "env \<Rightarrow> world \<Rightarrow> (error + int) \<times> world" where
  "AvailableBalance e w =
     (case totalIssued w of
        (Inl err, w') \<Rightarrow> (Inl err, w')
      | (Inr issued, w') \<Rightarrow>
          (case Balance e of
             Inl err \<Rightarrow> (Inl err, w')
           | Inr balance \<Rightarrow>
               (case TotalPaidOut e of
                  Inl err \<Rightarrow> (Inl err, w')
                | Inr totalPaidOut \<Rightarrow> (Inr (balance + totalPaidOut - issued), w'))))"

definition LastCheque :: "address \<Rightarrow> world \<Rightarrow> (error + signedCheque) \<times> world" where
  "LastCheque beneficiary w =
     (case store_Get as_signedCheque (lastIssuedChequeKey beneficiary) w of
        (Inl err, w') \<Rightarrow> (if err \<noteq> ErrNotFound then (Inl err, w') else (Inl ErrNoCheque, w'))
      | (Inr lastCheque, w') \<Rightarrow> (Inr lastCheque, w'))"

text \<open>Lines 259 to 269 of \<open>Issue\<close>: the two writes that follow a delivery.\<close>

definition Issue_save :: "address \<Rightarrow> int \<Rightarrow> cheque \<Rightarrow> world \<Rightarrow> error option \<times> world" where
  "Issue_save beneficiary amount cheque w =
     (case store_Put (lastIssuedChequeKey beneficiary) (StoredCheque cheque) w of
        (Some err, w1) \<Rightarrow> (Some err, w1)
      | (None, w1) \<Rightarrow>
          (case totalIssued w1 of
             (Inl err, w2) \<Rightarrow> (Some err, w2)
           | (Inr issued, w2) \<Rightarrow> store_Put totalIssuedKey (StoredInt (issued + amount)) w2))"

text \<open>Lines 231 to 269 of \<open>Issue\<close>: from the previous cumulative payout on. The cheque is
  handed to the signer, then to \<open>sendChequeFunc\<close>, and saved only when both succeed.\<close>

definition Issue_send ::
  "service \<Rightarrow> env \<Rightarrow> address \<Rightarrow> int \<Rightarrow> (signedCheque \<Rightarrow> error option) \<Rightarrow> int \<Rightarrow> world \<Rightarrow>
   error option \<times> world" where
  "Issue_send s e beneficiary amount sendChequeFunc cumulativePayout0 w =
     (let cumulativePayout = cumulativePayout0 + amount;
          cheque = \<lparr>Chequebook = address s, Beneficiary = beneficiary,
                    CumulativePayout = cumulativePayout\<rparr>;
          w1 = w\<lparr>signedLog := signedLog w @ [cheque]\<rparr>
      in case Sign e cheque of
           Inl err \<Rightarrow> (Some err, w1)
         | Inr sig \<Rightarrow>
             (let sc = \<lparr>Cheque = cheque, Signature = sig\<rparr>;
                  w2 = w1\<lparr>deliveredLog := deliveredLog w1 @ [sc]\<rparr>
              in case sendChequeFunc sc of
                   Some err \<Rightarrow> (Some err, w2)
                 | None \<Rightarrow> Issue_save beneficiary amount cheque w2))"

definition Issue ::
  "service \<Rightarrow> env \<Rightarrow> address \<Rightarrow> int \<Rightarrow> (signedCheque \<Rightarrow> error option) \<Rightarrow> world \<Rightarrow>
   error option \<times> world" where
  "Issue s e beneficiary amount sendChequeFunc w =
     (case AvailableBalance e w of
        (Inl err, w1) \<Rightarrow> (Some err, w1)
      | (Inr availableBalance, w1) \<Rightarrow>
          if amount > availableBalance then (Some ErrOutOfFunds, w1)
          else
            (case LastCheque beneficiary w1 of
               (Inl err, w2) \<Rightarrow>
                 if err \<noteq> ErrNoCheque then (Some err, w2)
                 else Issue_send s e beneficiary amount sendChequeFunc 0 w2
             | (Inr lastCheque, w2) \<Rightarrow>
                 Issue_send s e beneficiary amount sendChequeFunc
                   (CumulativePayout (Cheque lastCheque)) w2))"

text \<open>The closure that \<open>LastCheques\<close> hands to \<open>Iterate\<close>; \<open>result\<close> is the map it captures.\<close>

definition LastCheques_visit ::
  "string \<Rightarrow> stored \<Rightarrow> (address \<rightharpoonup> signedCheque) \<Rightarrow> world \<Rightarrow>
   (error + bool \<times> (address \<rightharpoonup> signedCheque)) \<times> world" where
  "LastCheques_visit key val result w =
     (case keyBeneficiary key lastIssuedChequeKeyPrefix of
        Inl err \<Rightarrow> (Inl (ErrWrap (''parse address from key: '' @ key) err), w)
      | Inr addr \<Rightarrow>
          (case result addr of
             Some present \<Rightarrow> (Inr (False, result), w)
           | None \<Rightarrow>
               (case LastCheque addr w of
                  (Inl err, w') \<Rightarrow> (Inl err, w')
                | (Inr lastCheque, w') \<Rightarrow> (Inr (False, result(addr \<mapsto> lastCheque)), w'))))"

definition LastCheques :: "world \<Rightarrow> (error + (address \<rightharpoonup> signedCheque)) \<times> world" where
  "LastCheques w = store_Iterate lastIssuedChequeKeyPrefix LastCheques_visit Map.empty w"

definition Deposit :: "service \<Rightarrow> env \<Rightarrow> int \<Rightarrow> world \<Rightarrow> (error + hash) \<times> world" where
  "Deposit s e amount w =
     (case BalanceOf e (ownerAddress s) of
        Inl err \<Rightarrow> (Inl err, w)
      | Inr balance \<Rightarrow>
          if balance < amount then (Inl ErrInsufficientFunds, w)
          else
            (case erc20Pack e ''transfer'' [ArgAddress (address s), ArgUint amount] of
               Inl err \<Rightarrow> (Inl err, w)
             | Inr callData \<Rightarrow>
                 (let request = \<lparr>To = erc20Address s, Data = callData, GasPrice = None,
                                  GasLimit = 0, Value = 0\<rparr>;
                      w1 = w\<lparr>sentLog := sentLog w @ [request]\<rparr>
                  in case Send e request of
                       Inl err \<Rightarrow> (Inl err, w1)
                     | Inr txHash \<Rightarrow> (Inr txHash, w1))))"

definition WaitForDeposit :: "env \<Rightarrow> hash \<Rightarrow> world \<Rightarrow> error option \<times> world" where
  "WaitForDeposit e txHash w =
     (case WaitForReceipt e txHash of
        Inl err \<Rightarrow> (Some err, w)
      | Inr status \<Rightarrow> if status \<noteq> 1 then (Some ErrTransactionReverted, w) else (None, w))"

definition Withdraw :: "service \<Rightarrow> env \<Rightarrow> int \<Rightarrow> world \<Rightarrow> (error + hash) \<times> world" where
  "Withdraw s e amount w =
     (case AvailableBalance e w of
        (Inl err, w1) \<Rightarrow> (Inl err, w1)
      | (Inr availableBalance, w1) \<Rightarrow>
          if availableBalance < amount then (Inl ErrInsufficientFunds, w1)
          else
            (case chequebookPack e ''withdraw'' [ArgUint amount] of
               Inl err \<Rightarrow> (Inl err, w1)
             | Inr callData \<Rightarrow>
                 (let request = \<lparr>To = address s, Data = callData, GasPrice = None,
                                  GasLimit = 0, Value = 0\<rparr>;
                      w2 = w1\<lparr>sentLog := sentLog w1 @ [request]\<rparr>
                  in case Send e request of
                       Inl err \<Rightarrow> (Inl err, w2)
                     | Inr txHash \<Rightarrow> (Inr txHash, w2))))"

text \<open>The methods of the \<open>Service\<close> interface as one type, and a sequence of calls. A call
  comes with what the collaborators answer while it runs. \<open>Balance\<close> only forwards to the
  contract binding and \<open>Address\<close> returns a field. \<open>run\<close> returns the sum of the amounts of
  the calls to \<open>Issue\<close> that returned no error, and the world after the last call.\<close>

datatype op =
    OpDeposit int
  | OpWithdraw int
  | OpWaitForDeposit hash
  | OpBalance
  | OpAvailableBalance
  | OpAddress
  | OpIssue address int "signedCheque \<Rightarrow> error option"
  | OpLastCheque address
  | OpLastCheques

fun failed :: "error + 'a \<Rightarrow> error option" where
  "failed (Inl err) = Some err"
| "failed (Inr v) = None"

fun exec :: "service \<Rightarrow> env \<Rightarrow> op \<Rightarrow> world \<Rightarrow> error option \<times> world" where
  "exec s e (OpDeposit amount) w = (case Deposit s e amount w of (r, w') \<Rightarrow> (failed r, w'))"
| "exec s e (OpWithdraw amount) w = (case Withdraw s e amount w of (r, w') \<Rightarrow> (failed r, w'))"
| "exec s e (OpWaitForDeposit txHash) w = WaitForDeposit e txHash w"
| "exec s e OpBalance w = (failed (Balance e), w)"
| "exec s e OpAvailableBalance w = (case AvailableBalance e w of (r, w') \<Rightarrow> (failed r, w'))"
| "exec s e OpAddress w = (None, w)"
| "exec s e (OpIssue beneficiary amount sendChequeFunc) w =
     Issue s e beneficiary amount sendChequeFunc w"
| "exec s e (OpLastCheque beneficiary) w =
     (case LastCheque beneficiary w of (r, w') \<Rightarrow> (failed r, w'))"
| "exec s e OpLastCheques w = (case LastCheques w of (r, w') \<Rightarrow> (failed r, w'))"

fun issued_amount :: "op \<Rightarrow> error option \<Rightarrow> int" where
  "issued_amount (OpIssue beneficiary amount sendChequeFunc) None = amount"
| "issued_amount other r = 0"

fun run :: "service \<Rightarrow> (env \<times> op) list \<Rightarrow> world \<Rightarrow> int \<times> world" where
  "run s [] w = (0, w)"
| "run s ((e, call) # rest) w =
     (case exec s e call w of
        (r, w1) \<Rightarrow> (case run s rest w1 of (n, w2) \<Rightarrow> (issued_amount call r + n, w2)))"

fun positive_amount :: "env \<times> op \<Rightarrow> bool" where
  "positive_amount (e, OpIssue beneficiary amount sendChequeFunc) = (0 < amount)"
| "positive_amount (e, other) = True"

subsection \<open>What the store holds, read without the service\<close>

text \<open>The total-issued counter as the store holds it, zero when the key is absent; the
  cumulative payout of the last cheque saved for a beneficiary, zero when there is none;
  a store call schedule without faults; a key of the ledger that is the key the service
  writes for the beneficiary that \<open>keyBeneficiary\<close> reads from it; a value that is a
  cheque; a ledger entry that is absent or a cheque; a call to \<open>Issue\<close>; a store in which
  every key under the ledger prefix is such a key and holds a cheque; what \<open>LastCheque\<close>
  returns for a beneficiary when the store answers; a store in which \<open>keyBeneficiary\<close>
  reads a beneficiary from every key under the ledger prefix and \<open>LastCheque\<close> returns a
  cheque for that beneficiary; two worlds that differ at most in the schedule of faults.\<close>

definition counter :: "(string \<times> stored) list \<Rightarrow> error + int" where
  "counter store = (case map_of store totalIssuedKey of None \<Rightarrow> Inr 0 | Some v \<Rightarrow> as_int v)"

definition payout :: "(string \<times> stored) list \<Rightarrow> address \<Rightarrow> int" where
  "payout store beneficiary =
     (case map_of store (lastIssuedChequeKey beneficiary) of
        None \<Rightarrow> 0
      | Some v \<Rightarrow> (case v of StoredCheque c \<Rightarrow> CumulativePayout c | StoredInt n \<Rightarrow> 0))"

definition fault_free :: "world \<Rightarrow> bool" where
  "fault_free w = list_all (\<lambda>f. f = None) (faults w)"

definition canonical_key :: "string \<Rightarrow> bool" where
  "canonical_key key =
     (case keyBeneficiary key lastIssuedChequeKeyPrefix of
        Inl err \<Rightarrow> False
      | Inr addr \<Rightarrow> lastIssuedChequeKey addr = key)"

fun is_cheque :: "stored \<Rightarrow> bool" where
  "is_cheque (StoredCheque c) = True"
| "is_cheque (StoredInt n) = False"

definition ledger_readable :: "(string \<times> stored) list \<Rightarrow> address \<Rightarrow> bool" where
  "ledger_readable store beneficiary =
     (case map_of store (lastIssuedChequeKey beneficiary) of None \<Rightarrow> True | Some v \<Rightarrow> is_cheque v)"

fun is_issue :: "op \<Rightarrow> bool" where
  "is_issue (OpIssue beneficiary amount sendChequeFunc) = True"
| "is_issue other = False"

definition ledger_wellformed :: "(string \<times> stored) list \<Rightarrow> bool" where
  "ledger_wellformed store =
     list_all (\<lambda>(k, v). canonical_key k \<and> is_cheque v)
       (filter (\<lambda>(k, v). HasPrefix k lastIssuedChequeKeyPrefix) store)"

definition read_entry :: "(string \<times> stored) list \<Rightarrow> address \<Rightarrow> error + signedCheque" where
  "read_entry store beneficiary =
     (case map_of store (lastIssuedChequeKey beneficiary) of
        None \<Rightarrow> Inl ErrNoCheque
      | Some v \<Rightarrow> as_signedCheque v)"

definition ledger_resolvable :: "(string \<times> stored) list \<Rightarrow> bool" where
  "ledger_resolvable store =
     list_all
       (\<lambda>(k, v). case keyBeneficiary k lastIssuedChequeKeyPrefix of
                   Inl err \<Rightarrow> False
                 | Inr addr \<Rightarrow> \<not> isl (read_entry store addr))
       (filter (\<lambda>(k, v). HasPrefix k lastIssuedChequeKeyPrefix) store)"

definition same_data :: "world \<Rightarrow> world \<Rightarrow> bool" where
  "same_data w w' =
     (kv w' = kv w \<and> signedLog w' = signedLog w \<and> deliveredLog w' = deliveredLog w \<and>
      sentLog w' = sentLog w)"

text \<open>The cheque that lines 235 to 239 of \<open>Issue\<close> build when the store is \<open>store\<close>.\<close>

definition issued_cheque :: "service \<Rightarrow> address \<Rightarrow> int \<Rightarrow> (string \<times> stored) list \<Rightarrow> cheque" where
  "issued_cheque s beneficiary amount store =
     \<lparr>Chequebook = address s, Beneficiary = beneficiary,
      CumulativePayout = payout store beneficiary + amount\<rparr>"

subsection \<open>Example data\<close>

definition svc :: service where
  "svc = \<lparr>address = replicate 20 1, ownerAddress = replicate 20 2, erc20Address = replicate 20 3\<rparr>"

definition env_ok :: env where
  "env_ok =
     \<lparr>Balance = Inr 100, TotalPaidOut = Inr 20, BalanceOf = (\<lambda>a. Inr 50),
      Sign = (\<lambda>c. Inr [7]), erc20Pack = (\<lambda>m args. Inr [1]),
      chequebookPack = (\<lambda>m args. Inr [2]), Send = (\<lambda>r. Inr [9]),
      WaitForReceipt = (\<lambda>h. Inr 1)\<rparr>"

definition world_of :: "(string \<times> stored) list \<Rightarrow> string option list \<Rightarrow> world" where
  "world_of store schedule =
     \<lparr>kv = store, faults = schedule, signedLog = [], deliveredLog = [], sentLog = []\<rparr>"

definition beneficiary1 :: address where
  "beneficiary1 = replicate 20 171"

definition cheque1 :: cheque where
  "cheque1 = \<lparr>Chequebook = replicate 20 1, Beneficiary = replicate 20 171, CumulativePayout = 30\<rparr>"

definition store1 :: "(string \<times> stored) list" where
  "store1 = [(lastIssuedChequeKey beneficiary1, StoredCheque cheque1), (totalIssuedKey, StoredInt 30)]"

definition calls1 :: "(env \<times> op) list" where
  "calls1 =
     [(env_ok, OpIssue beneficiary1 10 (\<lambda>c. None)),
      (env_ok, OpAvailableBalance),
      (env_ok, OpIssue beneficiary1 200 (\<lambda>c. None)),
      (env_ok, OpIssue beneficiary1 5 (\<lambda>c. Some (ErrExternal ''offline''))),
      (env_ok, OpLastCheques),
      (env_ok, OpIssue beneficiary1 7 (\<lambda>c. None))]"

definition beneficiary2 :: address where
  "beneficiary2 = replicate 20 18"

definition cheque2 :: cheque where
  "cheque2 = \<lparr>Chequebook = replicate 20 1, Beneficiary = replicate 20 18, CumulativePayout = 70\<rparr>"

definition zz_key :: string where
  "zz_key = ''chequebook_last_issued_cheque_zz''"

definition junk_key :: string where
  "junk_key = lastIssuedChequeKey beneficiary1 @ ''zz''"

definition doubled_key :: string where
  "doubled_key = lastIssuedChequeKeyPrefix @ lastIssuedChequeKey beneficiary1"

definition upper_key :: string where
  "upper_key = ''chequebook_last_issued_cheque_ABABABABABABABABABABABABABABABABABABABAB''"

definition store3 :: "(string \<times> stored) list" where
  "store3 =
     [(lastIssuedChequeKey beneficiary1, StoredCheque cheque1),
      (junk_key, StoredCheque cheque2),
      (totalIssuedKey, StoredInt 100),
      (lastIssuedChequeKey beneficiary2, StoredCheque cheque2)]"

section \<open>Properties\<close>

subsection \<open>Reads leave the store and the logs alone\<close>

lemma same_data_refl [simp]: "same_data w w"
  by (simp add: same_data_def)

lemma same_data_trans: "same_data w w1 \<Longrightarrow> same_data w1 w2 \<Longrightarrow> same_data w w2"
  by (simp add: same_data_def)

lemma next_fault_same: "next_fault w = (f, w') \<Longrightarrow> same_data w w'"
  by (auto simp: next_fault_def same_data_def split: list.splits)

lemma next_fault_free: "fault_free w \<Longrightarrow> next_fault w = (f, w') \<Longrightarrow> f = None \<and> fault_free w'"
  by (auto simp: next_fault_def fault_free_def split: list.splits)

lemma store_Get_same: "store_Get d k w = (r, w') \<Longrightarrow> same_data w w'"
  by (auto simp: store_Get_def split: prod.splits option.splits dest: next_fault_same)

lemma store_Get_value:
  "next_fault w = (None, w1) \<Longrightarrow>
   store_Get d k w = ((case map_of (kv w) k of None \<Rightarrow> Inl ErrNotFound | Some v \<Rightarrow> d v), w1)"
  by (auto simp: store_Get_def same_data_def split: option.splits dest!: next_fault_same)

lemma store_Get_fault:
  "next_fault w = (Some msg, w1) \<Longrightarrow> store_Get d k w = (Inl (ErrExternal msg), w1)"
  by (simp add: store_Get_def)

lemma totalIssued_same: "totalIssued w = (r, w') \<Longrightarrow> same_data w w'"
  by (auto simp: totalIssued_def split: prod.splits sum.splits if_splits dest: store_Get_same)

lemma totalIssued_value:
  "next_fault w = (None, w1) \<Longrightarrow> totalIssued w = (counter (kv w), w1)"
proof (cases "map_of (kv w) totalIssuedKey")
  case None
  then show "next_fault w = (None, w1) \<Longrightarrow> ?thesis"
    by (simp add: totalIssued_def store_Get_value counter_def)
next
  case (Some v)
  then show "next_fault w = (None, w1) \<Longrightarrow> ?thesis"
    by (cases v) (simp_all add: totalIssued_def store_Get_value counter_def)
qed

lemma as_int_not_NotFound: "as_int v \<noteq> Inl ErrNotFound"
  by (cases v) simp_all

lemma totalIssued_fault:
  "next_fault w = (Some msg, w1) \<Longrightarrow> totalIssued w = (Inl (ErrExternal msg), w1)"
  by (simp add: totalIssued_def store_Get_fault)

lemma AvailableBalance_same: "AvailableBalance e w = (r, w') \<Longrightarrow> same_data w w'"
  by (auto simp: AvailableBalance_def split: prod.splits sum.splits dest: totalIssued_same)

lemma LastCheque_same: "LastCheque b w = (r, w') \<Longrightarrow> same_data w w'"
  by (auto simp: LastCheque_def split: prod.splits sum.splits if_splits dest: store_Get_same)

subsection \<open>Keys are told apart\<close>

lemma nibble_cases: "n < 16 \<Longrightarrow> n \<in> {0, 1, 2, 3, 4, 5, 6, 7, 8, 9, 10, 11, 12, 13, 14, 15::nat}"
  by simp arith

lemma fromHexChar_hexdigit: "n < 16 \<Longrightarrow> fromHexChar (hexdigit n) = Some (of_nat n)"
  by (drule nibble_cases) (auto simp: hexdigit_def fromHexChar_def)

lemma hi_nibble: "unat (drop_bit 4 (b :: byte)) < 16"
proof -
  have "unat (drop_bit 4 b) = drop_bit 4 (unat b)" by (rule unat_drop_bit_eq)
  then have "unat (drop_bit 4 b) = unat b div 16" by (simp only: drop_bit_eq_div) simp
  moreover have "unat b < 256" using unsigned_less [of b] by simp
  ultimately show ?thesis by simp
qed

lemma fifteen_mask: "(15 :: byte) = mask 4"
  by (simp add: mask_eq_exp_minus_1)

lemma lo_nibble: "unat ((b :: byte) AND 15) < 16"
proof -
  have "unat (b AND 15) = take_bit 4 (unat b)"
    unfolding fifteen_mask by (simp only: flip: take_bit_eq_mask) (rule unsigned_take_bit_eq)
  then show ?thesis by (simp add: take_bit_eq_mod)
qed

lemma byte_nibbles: "push_bit 4 (drop_bit 4 b) OR (b AND 15) = (b :: byte)"
  unfolding fifteen_mask by (rule bit_word_eqI) (auto simp: bit_simps)

lemma hex_Decode_hex_byte: "hex_Decode (hex_byte b @ rest) = b # hex_Decode rest"
  by (simp add: hex_byte_def fromHexChar_hexdigit hi_nibble lo_nibble byte_nibbles)

lemma hex_Decode_encode: "hex_Decode (hex_encode bs) = bs"
  by (induction bs) (simp_all add: hex_encode_def hex_Decode_hex_byte)

lemma hex_encode_inj: "hex_encode a = hex_encode b \<Longrightarrow> a = b"
  by (metis hex_Decode_encode)

lemma lastIssuedChequeKey_inj: "lastIssuedChequeKey a = lastIssuedChequeKey b \<Longrightarrow> a = b"
  by (simp add: lastIssuedChequeKey_def hex_encode_inj)

subsection \<open>What a call to Issue can do\<close>

lemma key_neq_counter_key [simp]:
  "lastIssuedChequeKey b \<noteq> totalIssuedKey" "totalIssuedKey \<noteq> lastIssuedChequeKey b"
  by (simp_all add: lastIssuedChequeKey_def totalIssuedKey_def)

lemma store_Put_cases:
  assumes "store_Put k v w = (r, w')"
  shows "signedLog w' = signedLog w \<and> deliveredLog w' = deliveredLog w \<and> sentLog w' = sentLog w \<and>
         ((r = None \<and> kv w' = AList.update k v (kv w)) \<or>
          (\<exists>msg. r = Some (ErrExternal msg) \<and> kv w' = kv w))"
  using assms
  by (auto simp: store_Put_def same_data_def split: prod.splits option.splits
      dest!: next_fault_same)

lemma store_Put_free:
  assumes "fault_free w"
  shows "\<exists>w'. store_Put k v w = (None, w') \<and> fault_free w' \<and> kv w' = AList.update k v (kv w) \<and>
           signedLog w' = signedLog w \<and> deliveredLog w' = deliveredLog w \<and> sentLog w' = sentLog w"
proof -
  obtain f w1 where nf: "next_fault w = (f, w1)" by (cases "next_fault w")
  with assms have "f = None" "fault_free w1" "same_data w w1"
    using next_fault_free next_fault_same by blast+
  then show ?thesis using nf
    by (simp add: store_Put_def same_data_def fault_free_def)
qed

lemma counter_update_counter [simp]:
  "counter (AList.update totalIssuedKey (StoredInt n) store) = Inr n"
  by (simp add: counter_def update_conv')

lemma counter_update_ledger [simp]:
  "counter (AList.update (lastIssuedChequeKey b) v store) = counter store"
  by (simp add: counter_def update_conv')

lemma map_of_counter_update_ledger [simp]:
  "map_of (AList.update (lastIssuedChequeKey b) v store) totalIssuedKey = map_of store totalIssuedKey"
  by (simp add: update_conv')

lemma payout_update_counter [simp]:
  "payout (AList.update totalIssuedKey v store) b = payout store b"
  by (simp add: payout_def update_conv')

lemma payout_update_same [simp]:
  "payout (AList.update (lastIssuedChequeKey b) (StoredCheque c) store) b = CumulativePayout c"
  by (simp add: payout_def update_conv')

lemma totalIssued_result:
  assumes "totalIssued w = (r, w')"
  shows "r = counter (kv w) \<or> (\<exists>msg. r = Inl (ErrExternal msg))"
proof -
  obtain f w1 where nf: "next_fault w = (f, w1)" by (cases "next_fault w")
  show ?thesis
  proof (cases f)
    case None
    with nf assms show ?thesis by (simp add: totalIssued_value)
  next
    case (Some msg)
    with nf assms show ?thesis by (auto simp: totalIssued_fault)
  qed
qed

lemma totalIssued_free:
  assumes "fault_free w"
  shows "\<exists>w'. totalIssued w = (counter (kv w), w') \<and> fault_free w' \<and> same_data w w'"
proof -
  obtain f w1 where nf: "next_fault w = (f, w1)" by (cases "next_fault w")
  with assms have "f = None" "fault_free w1" "same_data w w1"
    using next_fault_free next_fault_same by blast+
  then show ?thesis using nf by (simp add: totalIssued_value)
qed

lemma LastCheque_result:
  assumes "LastCheque b w = (r, w')"
  shows "(\<exists>msg. r = Inl (ErrExternal msg)) \<or>
         r = (case map_of (kv w) (lastIssuedChequeKey b) of
                None \<Rightarrow> Inl ErrNoCheque | Some v \<Rightarrow> as_signedCheque v)"
proof -
  obtain f w1 where nf: "next_fault w = (f, w1)" by (cases "next_fault w")
  show ?thesis
  proof (cases f)
    case None
    show ?thesis
    proof (cases "map_of (kv w) (lastIssuedChequeKey b)")
      case None
      with nf \<open>f = None\<close> assms show ?thesis by (simp add: LastCheque_def store_Get_value)
    next
      case (Some v)
      with nf \<open>f = None\<close> assms show ?thesis
        by (cases v) (auto simp: LastCheque_def store_Get_value)
    qed
  next
    case (Some msg)
    with nf assms show ?thesis by (auto simp: LastCheque_def store_Get_fault)
  qed
qed

lemma LastCheque_free:
  assumes "fault_free w"
  shows "\<exists>w'. LastCheque b w =
           ((case map_of (kv w) (lastIssuedChequeKey b) of
               None \<Rightarrow> Inl ErrNoCheque | Some v \<Rightarrow> as_signedCheque v), w') \<and>
           fault_free w' \<and> same_data w w'"
proof -
  obtain f w1 where nf: "next_fault w = (f, w1)" by (cases "next_fault w")
  with assms have *: "f = None" "fault_free w1" "same_data w w1"
    using next_fault_free next_fault_same by blast+
  show ?thesis
  proof (cases "map_of (kv w) (lastIssuedChequeKey b)")
    case None
    with nf * show ?thesis by (simp add: LastCheque_def store_Get_value)
  next
    case (Some v)
    with nf * show ?thesis by (cases v) (simp_all add: LastCheque_def store_Get_value)
  qed
qed

lemma LastCheque_baseline:
  assumes "LastCheque b w = (r, w')"
  shows "(r = Inl ErrNoCheque \<longrightarrow> payout (kv w) b = 0) \<and>
         (\<forall>lastCheque. r = Inr lastCheque \<longrightarrow>
            CumulativePayout (Cheque lastCheque) = payout (kv w) b)"
proof (cases "map_of (kv w) (lastIssuedChequeKey b)")
  case None
  then show ?thesis using LastCheque_result [OF assms] by (auto simp: payout_def)
next
  case (Some v)
  then show ?thesis using LastCheque_result [OF assms] by (cases v) (auto simp: payout_def)
qed

lemma Issue_save_outcome:
  assumes "Issue_save b amount c w = (r, w')"
  shows "signedLog w' = signedLog w \<and> deliveredLog w' = deliveredLog w \<and> sentLog w' = sentLog w \<and>
         ((r = None \<and> (\<exists>t. counter (kv w) = Inr t \<and>
              kv w' = AList.update totalIssuedKey (StoredInt (t + amount))
                        (AList.update (lastIssuedChequeKey b) (StoredCheque c) (kv w)))) \<or>
          (r \<noteq> None \<and> (kv w' = kv w \<or>
              kv w' = AList.update (lastIssuedChequeKey b) (StoredCheque c) (kv w))))"
proof -
  obtain r1 w1 where p1: "store_Put (lastIssuedChequeKey b) (StoredCheque c) w = (r1, w1)"
    by (cases "store_Put (lastIssuedChequeKey b) (StoredCheque c) w")
  note c1 = store_Put_cases [OF p1]
  show ?thesis
  proof (cases r1)
    case (Some err)
    with p1 assms c1 show ?thesis by (auto simp: Issue_save_def)
  next
    case None
    with c1 have kv1: "kv w1 = AList.update (lastIssuedChequeKey b) (StoredCheque c) (kv w)"
      by auto
    obtain r2 w2 where t2: "totalIssued w1 = (r2, w2)" by (cases "totalIssued w1")
    note s2 = totalIssued_same [OF t2] and v2 = totalIssued_result [OF t2]
    show ?thesis
    proof (cases r2)
      case (Inl err)
      with p1 None t2 assms c1 s2 kv1 show ?thesis
        by (auto simp: Issue_save_def same_data_def)
    next
      case (Inr t)
      with v2 kv1 have ct: "counter (kv w) = Inr t" by auto
      from Inr p1 None t2 assms
      have p3: "store_Put totalIssuedKey (StoredInt (t + amount)) w2 = (r, w')"
        by (simp add: Issue_save_def)
      note c3 = store_Put_cases [OF p3]
      with c1 s2 kv1 ct show ?thesis
        by (auto simp: same_data_def)
    qed
  qed
qed


lemma Issue_send_outcome:
  assumes "Issue_send s e b amount f p0 w = (r, w')"
    and "c = \<lparr>Chequebook = address s, Beneficiary = b, CumulativePayout = p0 + amount\<rparr>"
  shows "(\<exists>err. Sign e c = Inl err \<and> r = Some err \<and> kv w' = kv w \<and>
            signedLog w' = signedLog w @ [c] \<and> deliveredLog w' = deliveredLog w \<and>
            sentLog w' = sentLog w) \<or>
         (\<exists>sig err. Sign e c = Inr sig \<and> f \<lparr>Cheque = c, Signature = sig\<rparr> = Some err \<and>
            r = Some err \<and> kv w' = kv w \<and> signedLog w' = signedLog w @ [c] \<and>
            deliveredLog w' = deliveredLog w @ [\<lparr>Cheque = c, Signature = sig\<rparr>] \<and>
            sentLog w' = sentLog w) \<or>
         (\<exists>sig w2. Sign e c = Inr sig \<and> f \<lparr>Cheque = c, Signature = sig\<rparr> = None \<and>
            Issue_save b amount c w2 = (r, w') \<and> kv w2 = kv w \<and>
            signedLog w2 = signedLog w @ [c] \<and>
            deliveredLog w2 = deliveredLog w @ [\<lparr>Cheque = c, Signature = sig\<rparr>] \<and>
            sentLog w2 = sentLog w \<and> faults w2 = faults w)"
proof (cases "Sign e c")
  case (Inl err)
  with assms show ?thesis by (auto simp: Issue_send_def Let_def)
next
  case (Inr sig)
  show ?thesis
  proof (cases "f \<lparr>Cheque = c, Signature = sig\<rparr>")
    case (Some err)
    with Inr assms show ?thesis by (auto simp: Issue_send_def Let_def)
  next
    case None
    with Inr assms
    have "Issue_save b amount c
            (w\<lparr>signedLog := signedLog w @ [c],
               deliveredLog := deliveredLog w @ [\<lparr>Cheque = c, Signature = sig\<rparr>]\<rparr>) = (r, w')"
      by (simp add: Issue_send_def Let_def)
    with Inr None
    have "\<exists>sig w2. Sign e c = Inr sig \<and> f \<lparr>Cheque = c, Signature = sig\<rparr> = None \<and>
            Issue_save b amount c w2 = (r, w') \<and> kv w2 = kv w \<and>
            signedLog w2 = signedLog w @ [c] \<and>
            deliveredLog w2 = deliveredLog w @ [\<lparr>Cheque = c, Signature = sig\<rparr>] \<and>
            sentLog w2 = sentLog w \<and> faults w2 = faults w"
      by (intro exI [of _ sig]
          exI [of _ "w\<lparr>signedLog := signedLog w @ [c],
               deliveredLog := deliveredLog w @ [\<lparr>Cheque = c, Signature = sig\<rparr>]\<rparr>"]) simp
    then show ?thesis by blast
  qed
qed

lemma Issue_outcome:
  assumes "Issue s e b amount f w = (r, w')"
    and "c = issued_cheque s b amount (kv w)"
  shows "(\<exists>err. r = Some err \<and> same_data w w') \<or>
         (\<exists>err. Sign e c = Inl err \<and> r = Some err \<and> kv w' = kv w \<and>
            signedLog w' = signedLog w @ [c] \<and> deliveredLog w' = deliveredLog w \<and>
            sentLog w' = sentLog w) \<or>
         (\<exists>sig err. Sign e c = Inr sig \<and> f \<lparr>Cheque = c, Signature = sig\<rparr> = Some err \<and>
            r = Some err \<and> kv w' = kv w \<and> signedLog w' = signedLog w @ [c] \<and>
            deliveredLog w' = deliveredLog w @ [\<lparr>Cheque = c, Signature = sig\<rparr>] \<and>
            sentLog w' = sentLog w) \<or>
         (\<exists>sig w2. Sign e c = Inr sig \<and> f \<lparr>Cheque = c, Signature = sig\<rparr> = None \<and>
            Issue_save b amount c w2 = (r, w') \<and> kv w2 = kv w \<and>
            signedLog w2 = signedLog w @ [c] \<and>
            deliveredLog w2 = deliveredLog w @ [\<lparr>Cheque = c, Signature = sig\<rparr>] \<and>
            sentLog w2 = sentLog w)"
proof -
  obtain ra w1 where ab: "AvailableBalance e w = (ra, w1)" by (cases "AvailableBalance e w")
  note s1 = AvailableBalance_same [OF ab]
  show ?thesis
  proof (cases ra)
    case (Inl err)
    with ab assms s1 have "\<exists>err. r = Some err \<and> same_data w w'" by (auto simp: Issue_def)
    then show ?thesis by blast
  next
    case (Inr availableBalance)
    show ?thesis
    proof (cases "amount > availableBalance")
      case True
      with Inr ab assms s1 have "\<exists>err. r = Some err \<and> same_data w w'"
        by (auto simp: Issue_def)
      then show ?thesis by blast
    next
      case False
      obtain rl w2 where lc: "LastCheque b w1 = (rl, w2)" by (cases "LastCheque b w1")
      note s2 = same_data_trans [OF s1 LastCheque_same [OF lc]]
      have kv1: "kv w1 = kv w" using s1 by (simp add: same_data_def)
      note bl = LastCheque_baseline [OF lc, unfolded kv1]
      have d2: "kv w2 = kv w" "signedLog w2 = signedLog w" "deliveredLog w2 = deliveredLog w"
        "sentLog w2 = sentLog w"
        using s2 by (simp_all add: same_data_def)
      show ?thesis
      proof (cases rl)
        case (Inl err)
        show ?thesis
        proof (cases "err \<noteq> ErrNoCheque")
          case True
          with Inl Inr \<open>\<not> amount > availableBalance\<close> ab lc assms s2
          have "\<exists>err. r = Some err \<and> same_data w w'" by (auto simp: Issue_def)
          then show ?thesis by blast
        next
          case False
          with Inl bl have p0: "payout (kv w) b = 0" by simp
          from False Inl Inr \<open>\<not> amount > availableBalance\<close> ab lc assms
          have "Issue_send s e b amount f 0 w2 = (r, w')" by (simp add: Issue_def)
          moreover have "c = \<lparr>Chequebook = address s, Beneficiary = b, CumulativePayout = 0 + amount\<rparr>"
            using assms(2) p0 by (simp add: issued_cheque_def)
          ultimately show ?thesis
            using Issue_send_outcome [of s e b amount f 0 w2 r w' c] unfolding d2 by blast
        qed
      next
        case (Inr lastCheque)
        with bl have p0: "CumulativePayout (Cheque lastCheque) = payout (kv w) b" by simp
        from Inr \<open>ra = Inr availableBalance\<close> \<open>\<not> amount > availableBalance\<close> ab lc assms
        have "Issue_send s e b amount f (CumulativePayout (Cheque lastCheque)) w2 = (r, w')"
          by (simp add: Issue_def)
        moreover have "c = \<lparr>Chequebook = address s, Beneficiary = b,
                             CumulativePayout = CumulativePayout (Cheque lastCheque) + amount\<rparr>"
          using assms(2) p0 by (simp add: issued_cheque_def)
        ultimately show ?thesis
          using Issue_send_outcome [of s e b amount f "CumulativePayout (Cheque lastCheque)" w2 r w' c]
          unfolding d2 by blast
      qed
    qed
  qed
qed

lemma world_of_fields [simp]:
  "kv (world_of store schedule) = store" "faults (world_of store schedule) = schedule"
  "signedLog (world_of store schedule) = []" "deliveredLog (world_of store schedule) = []"
  "sentLog (world_of store schedule) = []"
  by (simp_all add: world_of_def)

lemma svc_address: "address svc = replicate 20 1"
  by (simp add: svc_def)

lemma store1_facts:
  "counter store1 = Inr 30" "payout store1 beneficiary1 = 30" "ledger_readable store1 beneficiary1"
  "fault_free (world_of store schedule) = list_all (\<lambda>f. f = None) schedule"
  by (simp_all add: counter_def payout_def ledger_readable_def store1_def cheque1_def fault_free_def)

lemma AvailableBalance_free:
  assumes "fault_free w" and "counter (kv w) = Inr issued" and "Balance e = Inr balance"
    and "TotalPaidOut e = Inr totalPaidOut"
  shows "\<exists>w'. AvailableBalance e w = (Inr (balance + totalPaidOut - issued), w') \<and>
           fault_free w' \<and> same_data w w'"
  using totalIssued_free [OF assms(1)] assms(2-4) by (auto simp: AvailableBalance_def)

lemma Issue_save_free:
  assumes "fault_free w" and "counter (kv w) = Inr issued"
  shows "\<exists>w'. Issue_save b amount c w = (None, w') \<and> fault_free w' \<and>
           kv w' = AList.update totalIssuedKey (StoredInt (issued + amount))
                     (AList.update (lastIssuedChequeKey b) (StoredCheque c) (kv w)) \<and>
           signedLog w' = signedLog w \<and> deliveredLog w' = deliveredLog w \<and> sentLog w' = sentLog w"
proof -
  obtain w1 where p1: "store_Put (lastIssuedChequeKey b) (StoredCheque c) w = (None, w1)"
    and f1: "fault_free w1"
    and k1: "kv w1 = AList.update (lastIssuedChequeKey b) (StoredCheque c) (kv w)"
    and l1: "signedLog w1 = signedLog w" "deliveredLog w1 = deliveredLog w" "sentLog w1 = sentLog w"
    using store_Put_free [OF assms(1)] by blast
  obtain w2 where t2: "totalIssued w1 = (counter (kv w1), w2)" and f2: "fault_free w2"
    and s2: "same_data w1 w2"
    using totalIssued_free [OF f1] by blast
  have c1: "counter (kv w1) = Inr issued" using k1 assms(2) by simp
  obtain w3 where p3: "store_Put totalIssuedKey (StoredInt (issued + amount)) w2 = (None, w3)"
    and f3: "fault_free w3"
    and k3: "kv w3 = AList.update totalIssuedKey (StoredInt (issued + amount)) (kv w2)"
    and l3: "signedLog w3 = signedLog w2" "deliveredLog w3 = deliveredLog w2" "sentLog w3 = sentLog w2"
    using store_Put_free [OF f2] by blast
  have "Issue_save b amount c w = (None, w3)"
    using p1 t2 c1 p3 by (simp add: Issue_save_def)
  then show ?thesis using f3 k3 k1 l1 l3 s2 by (simp add: same_data_def)
qed

lemma Issue_reaches_signer:
  assumes "fault_free w" and "counter (kv w) = Inr issued" and "Balance e = Inr balance"
    and "TotalPaidOut e = Inr totalPaidOut" and "amount \<le> balance + totalPaidOut - issued"
    and "ledger_readable (kv w) b"
  shows "\<exists>w2. Issue s e b amount f w = Issue_send s e b amount f (payout (kv w) b) w2 \<and>
           fault_free w2 \<and> same_data w w2"
proof -
  obtain w1 where ab: "AvailableBalance e w = (Inr (balance + totalPaidOut - issued), w1)"
    and f1: "fault_free w1" and s1: "same_data w w1"
    using AvailableBalance_free [OF assms(1-4)] by blast
  have kv1: "kv w1 = kv w" using s1 by (simp add: same_data_def)
  obtain w2 where lc: "LastCheque b w1 =
      ((case map_of (kv w) (lastIssuedChequeKey b) of
          None \<Rightarrow> Inl ErrNoCheque | Some v \<Rightarrow> as_signedCheque v), w2)"
    and f2: "fault_free w2" and s2: "same_data w1 w2"
    using LastCheque_free [OF f1, of b] unfolding kv1 by blast
  have "Issue s e b amount f w = Issue_send s e b amount f (payout (kv w) b) w2"
  proof (cases "map_of (kv w) (lastIssuedChequeKey b)")
    case None
    with ab lc assms(5) show ?thesis by (simp add: Issue_def payout_def)
  next
    case (Some v)
    with assms(6) obtain c0 where "v = StoredCheque c0"
      by (cases v) (simp_all add: ledger_readable_def)
    with Some ab lc assms(5) show ?thesis by (simp add: Issue_def payout_def)
  qed
  with f2 same_data_trans [OF s1 s2] show ?thesis by blast
qed

lemma Issue_store:
  assumes "Issue s e b amount f w = (r, w')" and "c = issued_cheque s b amount (kv w)"
  shows "(r = None \<and> (\<exists>t. counter (kv w) = Inr t \<and>
              kv w' = AList.update totalIssuedKey (StoredInt (t + amount))
                        (AList.update (lastIssuedChequeKey b) (StoredCheque c) (kv w)))) \<or>
         (r \<noteq> None \<and> (kv w' = kv w \<or>
              kv w' = AList.update (lastIssuedChequeKey b) (StoredCheque c) (kv w)))"
proof -
  from Issue_outcome [OF assms]
  consider (unchanged) "r \<noteq> None" "kv w' = kv w"
    | (save) w2 where "Issue_save b amount c w2 = (r, w')" "kv w2 = kv w"
    by (auto simp: same_data_def)
  then show ?thesis
  proof cases
    case unchanged
    then show ?thesis by simp
  next
    case save
    from Issue_save_outcome [OF save(1)] show ?thesis unfolding save(2) by blast
  qed
qed

lemma LastCheques_visit_same: "LastCheques_visit key val result w = (r, w') \<Longrightarrow> same_data w w'"
  by (auto simp: LastCheques_visit_def split: sum.splits option.splits prod.splits
      dest: LastCheque_same)

lemma iterate_loop_same:
  assumes "\<And>k v acc w r w'. f k v acc w = (r, w') \<Longrightarrow> same_data w w'"
  shows "iterate_loop f entries acc w = (r, w') \<Longrightarrow> same_data w w'"
proof (induction entries arbitrary: acc w)
  case Nil
  then show ?case by simp
next
  case (Cons entry entries)
  obtain k v where entry: "entry = (k, v)" by (cases entry)
  obtain r1 w1 where step: "f k v acc w = (r1, w1)" by (cases "f k v acc w")
  note s1 = assms [OF step]
  show ?case
  proof (cases r1)
    case (Inl err)
    with Cons.prems entry step s1 show ?thesis by simp
  next
    case (Inr p)
    obtain stop acc' where p: "p = (stop, acc')" by (cases p)
    show ?thesis
    proof (cases stop)
      case True
      with Cons.prems entry step s1 Inr p show ?thesis by simp
    next
      case False
      with Cons.prems entry step Inr p have "iterate_loop f entries acc' w1 = (r, w')" by simp
      from same_data_trans [OF s1 Cons.IH [OF this]] show ?thesis .
    qed
  qed
qed

lemma LastCheques_same: "LastCheques w = (r, w') \<Longrightarrow> same_data w w'"
proof -
  assume a: "LastCheques w = (r, w')"
  obtain f w1 where nf: "next_fault w = (f, w1)" by (cases "next_fault w")
  note s1 = next_fault_same [OF nf]
  show ?thesis
  proof (cases f)
    case (Some msg)
    with a nf s1 show ?thesis by (auto simp: LastCheques_def store_Iterate_def)
  next
    case None
    with a nf have "iterate_loop LastCheques_visit
        (filter (\<lambda>(k, v). HasPrefix k lastIssuedChequeKeyPrefix) (kv w1)) Map.empty w1 = (r, w')"
      by (simp add: LastCheques_def store_Iterate_def)
    from same_data_trans [OF s1 iterate_loop_same [OF LastCheques_visit_same this]]
    show ?thesis .
  qed
qed

lemma Deposit_store: "Deposit s e amount w = (r, w') \<Longrightarrow> kv w' = kv w"
  by (auto simp: Deposit_def Let_def split: sum.splits if_splits)

lemma WaitForDeposit_store: "WaitForDeposit e h w = (r, w') \<Longrightarrow> kv w' = kv w"
  by (auto simp: WaitForDeposit_def split: sum.splits if_splits)

lemma Withdraw_store: "Withdraw s e amount w = (r, w') \<Longrightarrow> kv w' = kv w"
  by (auto simp: Withdraw_def Let_def same_data_def split: sum.splits if_splits prod.splits
      dest!: AvailableBalance_same)

lemma exec_store:
  assumes "exec s e call w = (r, w')" and "\<not> is_issue call"
  shows "kv w' = kv w"
proof (cases call)
  case (OpDeposit amount)
  with assms show ?thesis by (auto split: prod.splits dest: Deposit_store)
next
  case (OpWithdraw amount)
  with assms show ?thesis by (auto split: prod.splits dest: Withdraw_store)
next
  case (OpWaitForDeposit h)
  with assms show ?thesis by (auto dest: WaitForDeposit_store)
next
  case OpBalance
  with assms show ?thesis by auto
next
  case OpAvailableBalance
  with assms show ?thesis
    by (auto simp: same_data_def split: prod.splits dest!: AvailableBalance_same)
next
  case OpAddress
  with assms show ?thesis by auto
next
  case (OpIssue b amount f)
  with assms show ?thesis by simp
next
  case (OpLastCheque b)
  with assms show ?thesis by (auto simp: same_data_def split: prod.splits dest!: LastCheque_same)
next
  case OpLastCheques
  with assms show ?thesis by (auto simp: same_data_def split: prod.splits dest!: LastCheques_same)
qed

lemma payout_update_other:
  "b0 \<noteq> b \<Longrightarrow> payout (AList.update (lastIssuedChequeKey b) v store) b0 = payout store b0"
  using lastIssuedChequeKey_inj [of b0 b] by (auto simp: payout_def update_conv')

lemma payout_after_update:
  "payout store b0 \<le> payout (AList.update (lastIssuedChequeKey b)
      (StoredCheque (issued_cheque s b amount store)) store) b0"
  if "0 < amount"
  using that by (cases "b0 = b") (simp_all add: payout_update_other issued_cheque_def)

lemma exec_payout_mono:
  assumes "positive_amount (e, call)" and "exec s e call w = (r, w')"
  shows "payout (kv w) b0 \<le> payout (kv w') b0"
proof (cases "is_issue call")
  case False
  with exec_store [OF assms(2)] show ?thesis by simp
next
  case True
  then obtain b amount f where call: "call = OpIssue b amount f" by (cases call) simp_all
  with assms have pos: "0 < amount" and i: "Issue s e b amount f w = (r, w')" by simp_all
  from Issue_store [OF i refl] payout_after_update [OF pos, of "kv w" b0 b s]
  show ?thesis by auto
qed

lemma run_payout_mono:
  "list_all positive_amount calls \<Longrightarrow> payout (kv w) b0 \<le> payout (kv (snd (run s calls w))) b0"
proof (induction calls arbitrary: w)
  case Nil
  then show ?case by simp
next
  case (Cons x calls)
  obtain e call where x: "x = (e, call)" by (cases x)
  obtain r w1 where ex: "exec s e call w = (r, w1)" by (cases "exec s e call w")
  from Cons.prems x have "positive_amount (e, call)" and rest: "list_all positive_amount calls"
    by simp_all
  from exec_payout_mono [OF this(1) ex] have "payout (kv w) b0 \<le> payout (kv w1) b0" .
  also have "\<dots> \<le> payout (kv (snd (run s calls w1))) b0" using Cons.IH [OF rest] .
  finally show ?case using x ex by (cases "run s calls w1") simp
qed

lemma exec_counter:
  assumes "exec s e call w = (r, w')" and "counter (kv w) = Inr t"
  shows "counter (kv w') = Inr (t + issued_amount call r)"
proof (cases "is_issue call")
  case False
  with exec_store [OF assms(1)] assms(2) show ?thesis by (cases call) simp_all
next
  case True
  then obtain b amount f where call: "call = OpIssue b amount f" by (cases call) simp_all
  with assms have i: "Issue s e b amount f w = (r, w')" by simp
  from Issue_store [OF i refl] assms(2) call show ?thesis by auto
qed

lemma run_counter:
  "run s calls w = (n, w') \<Longrightarrow> counter (kv w) = Inr t \<Longrightarrow> counter (kv w') = Inr (t + n)"
proof (induction calls arbitrary: w w' n t)
  case Nil
  then show ?case by simp
next
  case (Cons x calls)
  obtain e call where x: "x = (e, call)" by (cases x)
  obtain r w1 where ex: "exec s e call w = (r, w1)" by (cases "exec s e call w")
  obtain m w2 where rn: "run s calls w1 = (m, w2)" by (cases "run s calls w1")
  from Cons.prems(1) x ex rn have n: "n = issued_amount call r + m" and w': "w' = w2" by simp_all
  from exec_counter [OF ex Cons.prems(2)] have "counter (kv w1) = Inr (t + issued_amount call r)" .
  from Cons.IH [OF rn this] n w' show ?case by (simp add: add.assoc)
qed

lemma eval_Issue_deliver_fails:
  "Issue svc env_ok beneficiary1 10 (\<lambda>c. Some (ErrExternal ''offline'')) (world_of store1 []) =
     (Some (ErrExternal ''offline''),
      \<lparr>kv = store1, faults = [], signedLog = [issued_cheque svc beneficiary1 10 store1],
        deliveredLog = [\<lparr>Cheque = issued_cheque svc beneficiary1 10 store1, Signature = [7]\<rparr>],
        sentLog = []\<rparr>)"
  by (simp add: Issue_def AvailableBalance_def totalIssued_def LastCheque_def store_Get_def
      next_fault_def Issue_send_def world_of_def store1_def env_ok_def svc_def Let_def
      issued_cheque_def payout_def cheque1_def)

lemma eval_Issue_ok:
  "Issue svc env_ok beneficiary1 10 (\<lambda>c. None) (world_of store1 []) =
     (None,
      \<lparr>kv = [(lastIssuedChequeKey beneficiary1,
               StoredCheque \<lparr>Chequebook = replicate 20 1, Beneficiary = beneficiary1,
                              CumulativePayout = 40\<rparr>),
              (totalIssuedKey, StoredInt 40)],
        faults = [],
        signedLog = [\<lparr>Chequebook = replicate 20 1, Beneficiary = beneficiary1,
                       CumulativePayout = 40\<rparr>],
        deliveredLog = [\<lparr>Cheque = \<lparr>Chequebook = replicate 20 1, Beneficiary = beneficiary1,
                                      CumulativePayout = 40\<rparr>, Signature = [7]\<rparr>],
        sentLog = []\<rparr>)"
  by (simp add: Issue_def AvailableBalance_def totalIssued_def LastCheque_def store_Get_def
      next_fault_def Issue_send_def Issue_save_def store_Put_def world_of_def store1_def
      env_ok_def svc_def Let_def cheque1_def)

lemma eval_run_calls1:
  "fst (run svc calls1 (world_of [] [])) = 17 \<and>
   map_of (kv (snd (run svc calls1 (world_of [] [])))) totalIssuedKey = Some (StoredInt 17) \<and>
   map_of (kv (snd (run svc calls1 (world_of [] [])))) (lastIssuedChequeKey beneficiary1) =
     Some (StoredCheque \<lparr>Chequebook = replicate 20 1, Beneficiary = beneficiary1,
                              CumulativePayout = 17\<rparr>)"
  by code_simp

subsection \<open>Splitting and decoding keys\<close>

lemma HasPrefix_append [simp]: "HasPrefix (p @ s) p"
  by (induction p) simp_all

lemma HasPrefix_set: "HasPrefix s p \<Longrightarrow> set p \<subseteq> set s"
  by (induction s p rule: HasPrefix.induct) auto

lemma Index_None: "x \<in> set sep \<Longrightarrow> x \<notin> set s \<Longrightarrow> Index s sep = None"
proof (induction s)
  case Nil
  then show ?case by auto
next
  case (Cons c cs)
  then have "\<not> HasPrefix (c # cs) sep" using HasPrefix_set [of "c # cs" sep] by auto
  with Cons show ?case by simp
qed

lemma Index_prefix: "HasPrefix s sep \<Longrightarrow> Index s sep = Some 0"
  by (cases s) (auto elim: HasPrefix.elims)

lemma SplitAfter_no_sep: "sep \<noteq> [] \<Longrightarrow> Index s sep = None \<Longrightarrow> SplitAfter s sep = [s]"
  by (subst SplitAfter.simps) simp

lemma SplitAfter_prefix:
  "sep \<noteq> [] \<Longrightarrow> SplitAfter (sep @ s) sep = sep # SplitAfter s sep"
  by (subst SplitAfter.simps) (simp add: Index_prefix)

lemma SplitAfter_nonempty: "sep \<noteq> [] \<Longrightarrow> SplitAfter s sep \<noteq> []"
  by (subst SplitAfter.simps) (simp split: option.splits)

lemma SplitAfter_length_one:
  "sep \<noteq> [] \<Longrightarrow> (length (SplitAfter s sep) = 1) = (Index s sep = None)"
  using SplitAfter_nonempty [of sep]
  by (subst SplitAfter.simps) (auto split: option.splits)

lemma keyBeneficiary_ledger_key:
  assumes "sep \<noteq> []"
  shows "keyBeneficiary (sep @ s) sep =
           (if Index s sep = None then Inr (HexToAddress s) else Inl ErrNoBeneficiaryInKey)"
  using SplitAfter_length_one [OF assms, of s]
  by (auto simp: keyBeneficiary_def Let_def SplitAfter_prefix [OF assms] SplitAfter_no_sep [OF assms])

lemma hexdigit_chars: "n < 16 \<Longrightarrow> hexdigit n \<in> set ''0123456789abcdef''"
  by (drule nibble_cases) (auto simp: hexdigit_def)

lemma hex_encode_chars: "set (hex_encode bs) \<subseteq> set ''0123456789abcdef''"
proof (induction bs)
  case Nil
  then show ?case by (simp add: hex_encode_def)
next
  case (Cons b bs)
  have "set (hex_byte b) \<subseteq> set ''0123456789abcdef''"
    using hexdigit_chars [OF hi_nibble [of b]] hexdigit_chars [OF lo_nibble [of b]]
    by (simp add: hex_byte_def)
  with Cons show ?case by (simp add: hex_encode_def)
qed

lemma hex_encode_length: "length (hex_encode bs) = 2 * length bs"
  by (induction bs) (simp_all add: hex_encode_def hex_byte_def)

lemma FromHex_encode: "FromHex (hex_encode bs) = bs"
proof (cases bs)
  case Nil
  then show ?thesis by (simp add: FromHex_def hex_encode_def)
next
  case (Cons b rest)
  have "hexdigit (unat (b AND 15)) \<noteq> CHR ''x''" "hexdigit (unat (b AND 15)) \<noteq> CHR ''X''"
    using hexdigit_chars [OF lo_nibble [of b]] by auto
  then have "take 2 (hex_encode bs) \<noteq> ''0x''" "take 2 (hex_encode bs) \<noteq> ''0X''"
    using Cons by (simp_all add: hex_encode_def hex_byte_def)
  then show ?thesis
    by (simp add: FromHex_def Let_def hex_encode_length hex_Decode_encode)
qed

lemma HexToAddress_encode: "length b = 20 \<Longrightarrow> HexToAddress (hex_encode b) = b"
  by (simp add: HexToAddress_def FromHex_encode BytesToAddress_def)

lemma canonical_key_written: "length b = 20 \<Longrightarrow> canonical_key (lastIssuedChequeKey b)"
proof -
  assume len: "length b = 20"
  have "CHR ''_'' \<notin> set (hex_encode b)" using hex_encode_chars [of b] by auto
  then have "Index (hex_encode b) ''chequebook_last_issued_cheque_'' = None"
    by (intro Index_None [of "CHR ''_''"]) simp_all
  then show ?thesis
    using keyBeneficiary_ledger_key [of "''chequebook_last_issued_cheque_''" "hex_encode b"] len
    by (simp add: canonical_key_def lastIssuedChequeKey_def lastIssuedChequeKeyPrefix_def
        HexToAddress_encode)
qed

lemma HasPrefix_ledger_key [simp]: "HasPrefix (lastIssuedChequeKey b) lastIssuedChequeKeyPrefix"
  by (simp add: lastIssuedChequeKey_def lastIssuedChequeKeyPrefix_def)

subsection \<open>The enumeration loop\<close>

lemma iterate_loop_bad_key:
  assumes "(k, v) \<in> set entries" and "keyBeneficiary k lastIssuedChequeKeyPrefix = Inl err"
  shows "\<exists>e. fst (iterate_loop LastCheques_visit entries acc w) = Inl e"
  using assms(1)
proof (induction entries arbitrary: acc w)
  case Nil
  then show ?case by simp
next
  case (Cons entry entries)
  obtain k0 v0 where entry: "entry = (k0, v0)" by (cases entry)
  obtain r1 w1 where step: "LastCheques_visit k0 v0 acc w = (r1, w1)"
    by (cases "LastCheques_visit k0 v0 acc w")
  show ?case
  proof (cases r1)
    case (Inl e)
    with entry step show ?thesis by simp
  next
    case (Inr p)
    obtain stop acc' where p: "p = (stop, acc')" by (cases p)
    from step Inr p have stop: "\<not> stop"
      by (auto simp: LastCheques_visit_def split: sum.splits option.splits prod.splits)
    have "(k, v) \<noteq> (k0, v0)"
      using step Inr assms(2) by (auto simp: LastCheques_visit_def)
    with Cons.prems entry have "(k, v) \<in> set entries" by auto
    from Cons.IH [OF this, of acc' w1] entry step Inr p stop show ?thesis by simp
  qed
qed

lemma LastCheque_read_entry:
  assumes "fault_free w"
  shows "\<exists>w'. LastCheque b w = (read_entry (kv w) b, w') \<and> fault_free w' \<and> same_data w w'"
  using LastCheque_free [OF assms, of b] by (simp add: read_entry_def)

lemma read_entry_present:
  assumes "(lastIssuedChequeKey a, v) \<in> set store"
    and "\<forall>(k, v) \<in> set store. HasPrefix k lastIssuedChequeKeyPrefix \<longrightarrow> is_cheque v"
  shows "\<exists>c. read_entry store a = Inr \<lparr>Cheque = c, Signature = []\<rparr>"
proof -
  from assms(1) obtain v' where m: "map_of store (lastIssuedChequeKey a) = Some v'"
    by (metis weak_map_of_SomeI)
  then have "(lastIssuedChequeKey a, v') \<in> set store" by (rule map_of_SomeD)
  with assms(2) have "is_cheque v'" by auto
  then obtain c where "v' = StoredCheque c" by (cases v') simp_all
  with m show ?thesis by (simp add: read_entry_def)
qed

lemma BytesToAddress_length: "length (BytesToAddress b) = 20"
  by (simp add: BytesToAddress_def Let_def)

lemma keyBeneficiary_length: "keyBeneficiary k pfx = Inr a \<Longrightarrow> length a = 20"
  by (auto simp: keyBeneficiary_def Let_def HexToAddress_def BytesToAddress_length
      split: if_splits)

lemma keyBeneficiary_written:
  "length b = 20 \<Longrightarrow> keyBeneficiary (lastIssuedChequeKey b) lastIssuedChequeKeyPrefix = Inr b"
  using canonical_key_written [of b] lastIssuedChequeKey_inj
  by (auto simp: canonical_key_def split: sum.splits)

lemma lastIssuedChequeKey_length: "length (lastIssuedChequeKey b) = 30 + 2 * length b"
  by (simp add: lastIssuedChequeKey_def hex_encode_length)

lemma next_fault_schedule: "next_fault w = (f, w') \<Longrightarrow> faults w' = drop 1 (faults w)"
  by (auto simp: next_fault_def split: list.splits)

lemma LastCheque_schedule: "LastCheque b w = (r, w') \<Longrightarrow> faults w' = drop 1 (faults w)"
  by (auto simp: LastCheque_def store_Get_def split: prod.splits option.splits sum.splits if_splits
      dest: next_fault_schedule)

lemma read_entry_key: "read_entry store a = Inr sc \<Longrightarrow> lastIssuedChequeKey a \<in> fst ` set store"
  by (auto simp: read_entry_def split: option.splits dest!: map_of_SomeD intro: rev_image_eqI)

lemma iterate_loop_resolvable:
  assumes "fault_free w" and "kv w = store"
    and "\<forall>(k, v) \<in> set entries. \<exists>a sc. keyBeneficiary k lastIssuedChequeKeyPrefix = Inr a \<and>
           read_entry store a = Inr sc"
    and "\<forall>a sc. acc a = Some sc \<longrightarrow> read_entry store a = Inr sc"
    and "finite (dom acc)"
  shows "\<exists>m w'. iterate_loop LastCheques_visit entries acc w = (Inr m, w') \<and>
           kv w' = store \<and>
           (\<forall>a. (m a \<noteq> None) =
              (acc a \<noteq> None \<or>
               (\<exists>(k, v) \<in> set entries. keyBeneficiary k lastIssuedChequeKeyPrefix = Inr a))) \<and>
           (\<forall>a sc. m a = Some sc \<longrightarrow> read_entry store a = Inr sc) \<and>
           finite (dom m) \<and>
           faults w' = drop (card (dom m) - card (dom acc)) (faults w)"
  using assms
proof (induction entries arbitrary: acc w)
  case Nil
  then show ?case by simp
next
  case (Cons entry entries)
  obtain k v where entry: "entry = (k, v)" by (cases entry)
  from Cons.prems(3) entry obtain a0 sc0
    where kb: "keyBeneficiary k lastIssuedChequeKeyPrefix = Inr a0"
      and re: "read_entry store a0 = Inr sc0"
    by auto
  have rest: "\<forall>(k, v) \<in> set entries. \<exists>a sc. keyBeneficiary k lastIssuedChequeKeyPrefix = Inr a \<and>
           read_entry store a = Inr sc"
    using Cons.prems(3) by simp
  show ?case
  proof (cases "acc a0")
    case (Some present)
    then have step: "LastCheques_visit k v acc w = (Inr (False, acc), w)"
      using kb by (simp add: LastCheques_visit_def)
    from Cons.IH [OF Cons.prems(1,2) rest Cons.prems(4,5)]
    obtain m w' where "iterate_loop LastCheques_visit entries acc w = (Inr m, w')"
      and "kv w' = store"
      and "\<forall>a. (m a \<noteq> None) =
              (acc a \<noteq> None \<or>
               (\<exists>(k, v) \<in> set entries. keyBeneficiary k lastIssuedChequeKeyPrefix = Inr a))"
      and "\<forall>a sc. m a = Some sc \<longrightarrow> read_entry store a = Inr sc"
      and "finite (dom m)"
      and "faults w' = drop (card (dom m) - card (dom acc)) (faults w)"
      by blast
    with step entry Some kb show ?thesis by auto
  next
    case None
    obtain w1 where lc: "LastCheque a0 w = (read_entry store a0, w1)" and f1: "fault_free w1"
      and s1: "same_data w w1"
      using LastCheque_read_entry [OF Cons.prems(1), of a0] Cons.prems(2) by auto
    let ?acc = "acc(a0 \<mapsto> sc0)"
    have step: "LastCheques_visit k v acc w = (Inr (False, ?acc), w1)"
      using kb None lc re by (simp add: LastCheques_visit_def)
    have kv1: "kv w1 = store" using s1 Cons.prems(2) by (simp add: same_data_def)
    have sch: "faults w1 = drop 1 (faults w)" using LastCheque_schedule [OF lc] .
    have inv: "\<forall>a sc. ?acc a = Some sc \<longrightarrow> read_entry store a = Inr sc"
      using Cons.prems(4) re by auto
    have fin: "finite (dom ?acc)" using Cons.prems(5) by simp
    have card_acc: "card (dom ?acc) = Suc (card (dom acc))"
      using None Cons.prems(5) by (simp add: domIff)
    from Cons.IH [OF f1 kv1 rest inv fin]
    obtain m w' where it: "iterate_loop LastCheques_visit entries ?acc w1 = (Inr m, w')"
      and kv': "kv w' = store"
      and dom: "\<forall>a. (m a \<noteq> None) =
              (?acc a \<noteq> None \<or>
               (\<exists>(k, v) \<in> set entries. keyBeneficiary k lastIssuedChequeKeyPrefix = Inr a))"
      and val: "\<forall>a sc. m a = Some sc \<longrightarrow> read_entry store a = Inr sc"
      and finm: "finite (dom m)"
      and fl: "faults w' = drop (card (dom m) - card (dom ?acc)) (faults w1)"
      by blast
    have "dom ?acc \<subseteq> dom m" using dom by (auto simp: domIff)
    then have le: "card (dom ?acc) \<le> card (dom m)" using finm by (rule card_mono [rotated])
    have "card (dom m) - card (dom ?acc) + 1 = card (dom m) - card (dom acc)"
      using le card_acc by linarith
    then have fl': "faults w' = drop (card (dom m) - card (dom acc)) (faults w)"
      using fl sch by (simp only: drop_drop)
    have dom': "\<forall>a. (m a \<noteq> None) =
              (acc a \<noteq> None \<or>
               (\<exists>(k, v) \<in> set (entry # entries). keyBeneficiary k lastIssuedChequeKeyPrefix = Inr a))"
      using dom entry kb by auto
    from step entry it kv' dom' val finm fl' show ?thesis by auto
  qed
qed

lemma iterate_loop_needs_resolvable:
  assumes "fault_free w" and "kv w = store"
    and "\<forall>a sc. acc a = Some sc \<longrightarrow> read_entry store a = Inr sc"
    and "iterate_loop LastCheques_visit entries acc w = (Inr m, w')"
  shows "\<forall>(k, v) \<in> set entries. \<exists>a sc. keyBeneficiary k lastIssuedChequeKeyPrefix = Inr a \<and>
           read_entry store a = Inr sc"
  using assms
proof (induction entries arbitrary: acc w)
  case Nil
  then show ?case by simp
next
  case (Cons entry entries)
  obtain k v where entry: "entry = (k, v)" by (cases entry)
  obtain r1 w1 where step: "LastCheques_visit k v acc w = (r1, w1)"
    by (cases "LastCheques_visit k v acc w")
  with Cons.prems(4) entry obtain stop acc' where r1: "r1 = Inr (stop, acc')"
    by (cases r1) auto
  from step r1 obtain a0 where kb: "keyBeneficiary k lastIssuedChequeKeyPrefix = Inr a0"
    by (auto simp: LastCheques_visit_def split: sum.splits)
  obtain w2 where lc: "LastCheque a0 w = (read_entry store a0, w2)" and f2: "fault_free w2"
    and s2: "same_data w w2"
    using LastCheque_read_entry [OF Cons.prems(1), of a0] Cons.prems(2) by auto
  have facts: "\<not> stop \<and> fault_free w1 \<and> kv w1 = store \<and>
      (\<forall>a sc. acc' a = Some sc \<longrightarrow> read_entry store a = Inr sc) \<and>
      (\<exists>sc. read_entry store a0 = Inr sc)"
  proof (cases "acc a0")
    case (Some present)
    with step r1 kb Cons.prems(1,2,3) show ?thesis by (auto simp: LastCheques_visit_def)
  next
    case None
    with step r1 kb lc have "read_entry store a0 = Inr (the (acc' a0))" "w1 = w2"
      "acc' = acc(a0 \<mapsto> the (acc' a0))" "\<not> stop"
      by (auto simp: LastCheques_visit_def split: sum.splits)
    with f2 s2 Cons.prems(2,3) show ?thesis
      by (simp add: same_data_def) (metis fun_upd_apply option.inject)
  qed
  from Cons.prems(4) entry step r1 facts
  have "iterate_loop LastCheques_visit entries acc' w1 = (Inr m, w')" by simp
  from Cons.IH [OF _ _ _ this] facts
  have "\<forall>(k, v) \<in> set entries. \<exists>a sc. keyBeneficiary k lastIssuedChequeKeyPrefix = Inr a \<and>
           read_entry store a = Inr sc"
    by blast
  with entry kb facts show ?case by auto
qed

lemma resolvable_iff:
  "ledger_resolvable store =
     (\<forall>(k, v) \<in> set (filter (\<lambda>(k, v). HasPrefix k lastIssuedChequeKeyPrefix) store).
        \<exists>a sc. keyBeneficiary k lastIssuedChequeKeyPrefix = Inr a \<and> read_entry store a = Inr sc)"
proof -
  have "(case keyBeneficiary k lastIssuedChequeKeyPrefix of
           Inl err \<Rightarrow> False | Inr addr \<Rightarrow> \<not> isl (read_entry store addr)) =
        (\<exists>a sc. keyBeneficiary k lastIssuedChequeKeyPrefix = Inr a \<and> read_entry store a = Inr sc)"
    for k
    by (cases "keyBeneficiary k lastIssuedChequeKeyPrefix")
       (auto simp: isl_def split: sum.splits, (metis sum.exhaust)+)
  then show ?thesis by (auto simp: ledger_resolvable_def list_all_iff)
qed

lemma wellformed_resolvable: "ledger_wellformed store \<Longrightarrow> ledger_resolvable store"
proof -
  assume wf: "ledger_wellformed store"
  have chq: "\<forall>(k, v) \<in> set store. HasPrefix k lastIssuedChequeKeyPrefix \<longrightarrow> is_cheque v"
    using wf by (auto simp: ledger_wellformed_def list_all_iff)
  have "\<exists>a sc. keyBeneficiary k lastIssuedChequeKeyPrefix = Inr a \<and> read_entry store a = Inr sc"
    if "(k, v) \<in> set store" and "HasPrefix k lastIssuedChequeKeyPrefix" for k v
  proof -
    from wf that have "canonical_key k" by (auto simp: ledger_wellformed_def list_all_iff)
    then obtain a where a: "keyBeneficiary k lastIssuedChequeKeyPrefix = Inr a"
      and k: "lastIssuedChequeKey a = k"
      by (auto simp: canonical_key_def split: sum.splits)
    from that(1) k have "(lastIssuedChequeKey a, v) \<in> set store" by simp
    from read_entry_present [OF this chq] a show ?thesis by blast
  qed
  then show ?thesis unfolding resolvable_iff by auto
qed

lemma eval_store3:
  "ledger_resolvable store3"
  "\<not> canonical_key junk_key"
  "keyBeneficiary junk_key lastIssuedChequeKeyPrefix = Inr beneficiary1"
  "fst (LastCheque beneficiary1 (world_of store3 [None, None, None, None, None])) =
     Inr \<lparr>Cheque = cheque1, Signature = []\<rparr>"
  "fst (LastCheque beneficiary2 (world_of store3 [None, None, None, None, None])) =
     Inr \<lparr>Cheque = cheque2, Signature = []\<rparr>"
  by code_simp+

lemma eval_doubled_key:
  "HasPrefix doubled_key lastIssuedChequeKeyPrefix \<and>
   keyBeneficiary doubled_key lastIssuedChequeKeyPrefix = Inl ErrNoBeneficiaryInKey"
  by code_simp

subsection \<open>The available balance\<close>

text \<open>
  Claim C1. \<open>AvailableBalance\<close> writes nothing to the store, whatever happens. When the
  read of the counter goes through and the two contract calls answer, it returns the
  on-chain balance plus the total paid out minus the total issued, where the total issued
  is what the store holds under the counter key, and zero when the key is absent.
\<close>

theorem AvailableBalance_formula:
  "kv (snd (AvailableBalance e w)) = kv w \<and>
   (fst (next_fault w) = None \<longrightarrow> counter (kv w) = Inr issued \<longrightarrow>
    Balance e = Inr onChainBalance \<longrightarrow> TotalPaidOut e = Inr totalPaidOut \<longrightarrow>
    fst (AvailableBalance e w) = Inr (onChainBalance + totalPaidOut - issued))"
proof
  show "kv (snd (AvailableBalance e w)) = kv w"
    using AvailableBalance_same [of e w] by (cases "AvailableBalance e w") (simp add: same_data_def)
next
  show "fst (next_fault w) = None \<longrightarrow> counter (kv w) = Inr issued \<longrightarrow>
    Balance e = Inr onChainBalance \<longrightarrow> TotalPaidOut e = Inr totalPaidOut \<longrightarrow>
    fst (AvailableBalance e w) = Inr (onChainBalance + totalPaidOut - issued)"
  proof (intro impI)
    assume nf: "fst (next_fault w) = None" and c: "counter (kv w) = Inr issued"
      and b: "Balance e = Inr onChainBalance" and p: "TotalPaidOut e = Inr totalPaidOut"
    obtain w1 where "next_fault w = (None, w1)" using nf by (cases "next_fault w") simp
    then have "totalIssued w = (Inr issued, w1)" using c by (simp add: totalIssued_value)
    then show "fst (AvailableBalance e w) = Inr (onChainBalance + totalPaidOut - issued)"
      by (simp add: AvailableBalance_def b p)
  qed
qed


theorem AvailableBalance_formula_witness:
  "fst (AvailableBalance env_ok (world_of [(totalIssuedKey, StoredInt 30)] [])) = Inr 90 \<and>
   fst (AvailableBalance env_ok (world_of [] [None])) = Inr 120 \<and>
   kv (snd (AvailableBalance env_ok (world_of [(totalIssuedKey, StoredInt 30)] []))) =
     [(totalIssuedKey, StoredInt 30)]"
  using AvailableBalance_formula [of env_ok "world_of [(totalIssuedKey, StoredInt 30)] []" 30 100 20]
    AvailableBalance_formula [of env_ok "world_of [] [None]" 0 100 20]
  by (simp add: env_ok_def world_of_def next_fault_def counter_def)

subsection \<open>The last cheque of a beneficiary\<close>

text \<open>
  Claim C9. \<open>LastCheque\<close> changes nothing in the store. When the beneficiary's key is
  absent it returns \<open>ErrNoCheque\<close>; when the key holds a value it returns that value read
  as a signed cheque; a fault of the store is returned as it is, and more generally every
  error of the store's \<open>Get\<close> other than \<open>ErrNotFound\<close> is returned unchanged.
\<close>

theorem LastCheque_lookup:
  "kv (snd (LastCheque beneficiary w)) = kv w \<and>
   (fst (next_fault w) = None \<longrightarrow> map_of (kv w) (lastIssuedChequeKey beneficiary) = None \<longrightarrow>
      fst (LastCheque beneficiary w) = Inl ErrNoCheque) \<and>
   (fst (next_fault w) = None \<longrightarrow> map_of (kv w) (lastIssuedChequeKey beneficiary) = Some v \<longrightarrow>
      fst (LastCheque beneficiary w) = as_signedCheque v) \<and>
   (fst (next_fault w) = Some msg \<longrightarrow> fst (LastCheque beneficiary w) = Inl (ErrExternal msg)) \<and>
   (fst (store_Get as_signedCheque (lastIssuedChequeKey beneficiary) w) = Inl err \<longrightarrow>
      err \<noteq> ErrNotFound \<longrightarrow> fst (LastCheque beneficiary w) = Inl err)"
proof (intro conjI impI)
  show "kv (snd (LastCheque beneficiary w)) = kv w"
    using LastCheque_same [of beneficiary w]
    by (cases "LastCheque beneficiary w") (simp add: same_data_def)
next
  assume "fst (next_fault w) = None" and "map_of (kv w) (lastIssuedChequeKey beneficiary) = None"
  then show "fst (LastCheque beneficiary w) = Inl ErrNoCheque"
    by (cases "next_fault w") (simp add: LastCheque_def store_Get_value)
next
  assume nf: "fst (next_fault w) = None"
    and v: "map_of (kv w) (lastIssuedChequeKey beneficiary) = Some v"
  obtain w1 where "next_fault w = (None, w1)" using nf by (cases "next_fault w") simp
  then show "fst (LastCheque beneficiary w) = as_signedCheque v"
    using v by (cases v) (simp_all add: LastCheque_def store_Get_value)
next
  assume "fst (next_fault w) = Some msg"
  then show "fst (LastCheque beneficiary w) = Inl (ErrExternal msg)"
    by (cases "next_fault w") (simp add: LastCheque_def store_Get_fault)
next
  assume "fst (store_Get as_signedCheque (lastIssuedChequeKey beneficiary) w) = Inl err"
    and "err \<noteq> ErrNotFound"
  then show "fst (LastCheque beneficiary w) = Inl err"
    by (cases "store_Get as_signedCheque (lastIssuedChequeKey beneficiary) w")
       (simp add: LastCheque_def)
qed

theorem LastCheque_lookup_witness:
  "fst (LastCheque beneficiary1 (world_of [] [])) = Inl ErrNoCheque \<and>
   fst (LastCheque beneficiary1 (world_of store1 [None])) = Inr \<lparr>Cheque = cheque1, Signature = []\<rparr> \<and>
   fst (LastCheque beneficiary1 (world_of store1 [Some ''io''])) = Inl (ErrExternal ''io'')"
  using LastCheque_lookup [of beneficiary1 "world_of [] []"]
    LastCheque_lookup [of beneficiary1 "world_of store1 [None]" "StoredCheque cheque1"]
    LastCheque_lookup [of beneficiary1 "world_of store1 [Some ''io'']" _ "''io''" "ErrExternal ''io''"]
  by (simp add: world_of_def store1_def next_fault_def store_Get_def)

subsection \<open>Issuing\<close>

text \<open>
  Claim C2. When the amount is greater than the available balance that \<open>Issue\<close> computes
  first, \<open>Issue\<close> returns \<open>ErrOutOfFunds\<close>, the store is as it was, and neither the signer
  nor the delivery function has been called.
\<close>

theorem Issue_out_of_funds:
  assumes "fst (AvailableBalance e w) = Inr available" and "available < amount"
  shows "fst (Issue s e beneficiary amount sendChequeFunc w) = Some ErrOutOfFunds \<and>
         kv (snd (Issue s e beneficiary amount sendChequeFunc w)) = kv w \<and>
         signedLog (snd (Issue s e beneficiary amount sendChequeFunc w)) = signedLog w \<and>
         deliveredLog (snd (Issue s e beneficiary amount sendChequeFunc w)) = deliveredLog w"
proof -
  obtain w1 where ab: "AvailableBalance e w = (Inr available, w1)"
    using assms(1) by (cases "AvailableBalance e w") simp
  then have "Issue s e beneficiary amount sendChequeFunc w = (Some ErrOutOfFunds, w1)"
    using assms(2) by (simp add: Issue_def)
  with AvailableBalance_same [OF ab] show ?thesis by (simp add: same_data_def)
qed

theorem Issue_out_of_funds_witness:
  "fst (AvailableBalance env_ok (world_of store1 [])) = Inr 90 \<and>
   fst (Issue svc env_ok beneficiary1 91 (\<lambda>c. None) (world_of store1 [])) = Some ErrOutOfFunds \<and>
   kv (snd (Issue svc env_ok beneficiary1 91 (\<lambda>c. None) (world_of store1 []))) = store1 \<and>
   signedLog (snd (Issue svc env_ok beneficiary1 91 (\<lambda>c. None) (world_of store1 []))) = [] \<and>
   deliveredLog (snd (Issue svc env_ok beneficiary1 91 (\<lambda>c. None) (world_of store1 []))) = []"
proof -
  have a: "fst (AvailableBalance env_ok (world_of store1 [])) = Inr 90"
    by (simp add: AvailableBalance_def totalIssued_def store_Get_def next_fault_def world_of_def
        store1_def env_ok_def)
  show ?thesis
    using a Issue_out_of_funds [OF a, of 91 svc beneficiary1 "\<lambda>c. None"]
    by (simp add: world_of_def)
qed


text \<open>
  Claim C3. When a call to \<open>Issue\<close> hands a signed cheque to the delivery function and the
  delivery function returns an error, \<open>Issue\<close> returns that error and the store is as it
  was before the call: the beneficiary's entry and the counter are unchanged.
\<close>

theorem Issue_delivery_failed:
  assumes "Issue s e beneficiary amount sendChequeFunc w = (r, w')"
    and "deliveredLog w' = deliveredLog w @ [sent]"
    and "sendChequeFunc sent = Some err"
  shows "r = Some err \<and> kv w' = kv w"
proof -
  define c where "c = issued_cheque s beneficiary amount (kv w)"
  from Issue_outcome [OF assms(1) c_def]
  consider (early) "same_data w w'"
    | (sign) "deliveredLog w' = deliveredLog w"
    | (deliver) sig err' where "sendChequeFunc \<lparr>Cheque = c, Signature = sig\<rparr> = Some err'"
        "r = Some err'" "kv w' = kv w"
        "deliveredLog w' = deliveredLog w @ [\<lparr>Cheque = c, Signature = sig\<rparr>]"
    | (save) sig w2 where "sendChequeFunc \<lparr>Cheque = c, Signature = sig\<rparr> = None"
        "Issue_save beneficiary amount c w2 = (r, w')"
        "deliveredLog w2 = deliveredLog w @ [\<lparr>Cheque = c, Signature = sig\<rparr>]"
    by blast
  then show ?thesis
  proof cases
    case early
    with assms(2) show ?thesis by (simp add: same_data_def)
  next
    case sign
    with assms(2) show ?thesis by simp
  next
    case deliver
    with assms(2,3) show ?thesis by simp
  next
    case save
    from Issue_save_outcome [OF save(2)] save(3) assms(2)
    have "sent = \<lparr>Cheque = c, Signature = sig\<rparr>" by simp
    with save(1) assms(3) show ?thesis by simp
  qed
qed

theorem Issue_delivery_failed_witness:
  "fst (Issue svc env_ok beneficiary1 10 (\<lambda>c. Some (ErrExternal ''offline''))
          (world_of store1 [])) = Some (ErrExternal ''offline'') \<and>
   kv (snd (Issue svc env_ok beneficiary1 10 (\<lambda>c. Some (ErrExternal ''offline''))
          (world_of store1 []))) = store1 \<and>
   deliveredLog (snd (Issue svc env_ok beneficiary1 10 (\<lambda>c. Some (ErrExternal ''offline''))
          (world_of store1 []))) =
     [\<lparr>Cheque = issued_cheque svc beneficiary1 10 store1, Signature = [7]\<rparr>]"
  using Issue_delivery_failed [OF eval_Issue_deliver_fails, of
      "\<lparr>Cheque = issued_cheque svc beneficiary1 10 store1, Signature = [7]\<rparr>"
      "ErrExternal ''offline''"]
  by (simp add: eval_Issue_deliver_fails)


text \<open>
  Claim C4. After a call to \<open>Issue\<close> that returned no error, the store holds for the
  beneficiary a cheque whose cumulative payout is the one of the entry before the call
  (zero when there was none) plus the amount, a following \<open>LastCheque\<close> returns that
  cheque, and a positive amount makes the cumulative payout grow. Over any sequence of
  calls to the service in which every amount issued is positive, the cumulative payout
  saved for a beneficiary never decreases.
\<close>

theorem Issue_cumulative_payout:
  "(Issue s e b amount f w = (None, w') \<longrightarrow>
      map_of (kv w') (lastIssuedChequeKey b) =
        Some (StoredCheque \<lparr>Chequebook = address s, Beneficiary = b,
                CumulativePayout = payout (kv w) b + amount\<rparr>) \<and>
      (fst (next_fault w') = None \<longrightarrow>
         fst (LastCheque b w') =
           Inr \<lparr>Cheque = \<lparr>Chequebook = address s, Beneficiary = b,
                  CumulativePayout = payout (kv w) b + amount\<rparr>, Signature = []\<rparr>) \<and>
      (0 < amount \<longrightarrow> payout (kv w) b < payout (kv w') b)) \<and>
   (list_all positive_amount calls \<longrightarrow>
      payout (kv w0) b0 \<le> payout (kv (snd (run s0 calls w0))) b0)"
proof (intro conjI impI)
  assume i: "Issue s e b amount f w = (None, w')"
  from Issue_store [OF i refl]
  show m: "map_of (kv w') (lastIssuedChequeKey b) =
        Some (StoredCheque \<lparr>Chequebook = address s, Beneficiary = b,
                CumulativePayout = payout (kv w) b + amount\<rparr>)"
    by (auto simp: update_conv' issued_cheque_def)
  then show "payout (kv w) b < payout (kv w') b" if "0 < amount"
    using that by (simp add: payout_def)
  assume "fst (next_fault w') = None"
  then obtain w1 where "next_fault w' = (None, w1)" by (cases "next_fault w'") simp
  with m show "fst (LastCheque b w') =
           Inr \<lparr>Cheque = \<lparr>Chequebook = address s, Beneficiary = b,
                  CumulativePayout = payout (kv w) b + amount\<rparr>, Signature = []\<rparr>"
    by (simp add: LastCheque_def store_Get_value)
next
  assume "list_all positive_amount calls"
  then show "payout (kv w0) b0 \<le> payout (kv (snd (run s0 calls w0))) b0"
    by (rule run_payout_mono)
qed

theorem Issue_cumulative_payout_witness:
  "fst (Issue svc env_ok beneficiary1 10 (\<lambda>c. None) (world_of store1 [])) = None \<and>
   payout store1 beneficiary1 = 30 \<and>
   map_of (kv (snd (Issue svc env_ok beneficiary1 10 (\<lambda>c. None) (world_of store1 []))))
     (lastIssuedChequeKey beneficiary1) =
     Some (StoredCheque \<lparr>Chequebook = address svc, Beneficiary = beneficiary1,
                          CumulativePayout = 40\<rparr>) \<and>
   fst (LastCheque beneficiary1
          (snd (Issue svc env_ok beneficiary1 10 (\<lambda>c. None) (world_of store1 [])))) =
     Inr \<lparr>Cheque = \<lparr>Chequebook = address svc, Beneficiary = beneficiary1,
                      CumulativePayout = 40\<rparr>, Signature = []\<rparr> \<and>
   list_all positive_amount calls1 \<and>
   payout [] beneficiary1 = 0 \<and>
   payout (kv (snd (run svc calls1 (world_of [] [])))) beneficiary1 = 17"
proof -
  have p: "list_all positive_amount calls1" by (simp add: calls1_def)
  have q: "payout (kv (snd (run svc calls1 (world_of [] [])))) beneficiary1 = 17"
    using eval_run_calls1 by (simp add: payout_def)
  have z: "payout [] beneficiary1 = 0" by (simp add: payout_def)
  show ?thesis
    using Issue_cumulative_payout [where s = svc and e = env_ok and b = beneficiary1
        and amount = 10 and f = "\<lambda>c. None" and w = "world_of store1 []"
        and w' = "snd (Issue svc env_ok beneficiary1 10 (\<lambda>c. None) (world_of store1 []))"
        and calls = calls1 and ?w0.0 = "world_of [] []" and ?b0.0 = beneficiary1 and ?s0.0 = svc]
      p q z
    by (simp add: eval_Issue_ok store1_facts next_fault_def svc_address)
qed


text \<open>
  Claim C5. The counter reads as zero while the store has no counter key. A call to
  \<open>Issue\<close> that returns no error adds the amount to the counter. Every other call to the
  service, and every call to \<open>Issue\<close> that returns an error, leaves the counter entry of
  the store as it was. So after any sequence of calls the counter is its value before
  plus the sum of the amounts of the calls to \<open>Issue\<close> that returned no error.
\<close>

theorem total_issued_counter:
  "(map_of (kv w) totalIssuedKey = None \<longrightarrow> fst (next_fault w) = None \<longrightarrow>
      fst (totalIssued w) = Inr 0) \<and>
   (Issue s e b amount f w = (None, w') \<longrightarrow>
      (\<exists>t. counter (kv w) = Inr t \<and> counter (kv w') = Inr (t + amount))) \<and>
   (exec s e call w = (r, w') \<longrightarrow> (\<not> is_issue call \<or> r \<noteq> None) \<longrightarrow>
      map_of (kv w') totalIssuedKey = map_of (kv w) totalIssuedKey) \<and>
   (run s calls w = (n, w') \<longrightarrow> counter (kv w) = Inr t \<longrightarrow> counter (kv w') = Inr (t + n))"
proof (intro conjI impI)
  assume "map_of (kv w) totalIssuedKey = None" and "fst (next_fault w) = None"
  then show "fst (totalIssued w) = Inr 0"
    by (cases "next_fault w") (simp add: totalIssued_value counter_def)
next
  assume "Issue s e b amount f w = (None, w')"
  from Issue_store [OF this refl]
  show "\<exists>t. counter (kv w) = Inr t \<and> counter (kv w') = Inr (t + amount)" by auto
next
  assume ex: "exec s e call w = (r, w')" and other: "\<not> is_issue call \<or> r \<noteq> None"
  show "map_of (kv w') totalIssuedKey = map_of (kv w) totalIssuedKey"
  proof (cases "is_issue call")
    case False
    with exec_store [OF ex] show ?thesis by simp
  next
    case True
    then obtain b amount f where call: "call = OpIssue b amount f" by (cases call) simp_all
    with ex have i: "Issue s e b amount f w = (r, w')" by simp
    from Issue_store [OF i refl] other True show ?thesis by auto
  qed
next
  assume "run s calls w = (n, w')" and "counter (kv w) = Inr t"
  then show "counter (kv w') = Inr (t + n)" by (rule run_counter)
qed

theorem total_issued_counter_witness:
  "fst (totalIssued (world_of [] [])) = Inr 0 \<and>
   counter store1 = Inr 30 \<and>
   counter (kv (snd (Issue svc env_ok beneficiary1 10 (\<lambda>c. None) (world_of store1 [])))) = Inr 40 \<and>
   map_of (kv (snd (exec svc env_ok OpLastCheques (world_of store1 [])))) totalIssuedKey =
     Some (StoredInt 30) \<and>
   fst (run svc calls1 (world_of [] [])) = 17 \<and>
   counter (kv (snd (run svc calls1 (world_of [] [])))) = Inr 17"
proof -
  have a: "fst (run svc calls1 (world_of [] [])) = 17" using eval_run_calls1 by simp
  have b: "counter [] = Inr 0" "map_of store1 totalIssuedKey = Some (StoredInt 30)"
    by (simp_all add: counter_def store1_def)
  have c1: "fst (totalIssued (world_of [] [])) = Inr 0"
    using total_issued_counter [where w = "world_of [] []", THEN conjunct1]
    by (simp add: next_fault_def)
  have c2: "counter (kv (snd (Issue svc env_ok beneficiary1 10 (\<lambda>c. None) (world_of store1 [])))) =
      Inr 40"
    using total_issued_counter [where w = "world_of store1 []" and s = svc and e = env_ok
        and b = beneficiary1 and amount = 10 and f = "\<lambda>c. None"
        and w' = "snd (Issue svc env_ok beneficiary1 10 (\<lambda>c. None) (world_of store1 []))",
        THEN conjunct2, THEN conjunct1]
    by (simp add: eval_Issue_ok store1_facts)
  have c3: "map_of (kv (snd (exec svc env_ok OpLastCheques (world_of store1 [])))) totalIssuedKey =
      Some (StoredInt 30)"
    using total_issued_counter [where w = "world_of store1 []" and s = svc and e = env_ok
        and call = OpLastCheques
        and r = "fst (exec svc env_ok OpLastCheques (world_of store1 []))"
        and w' = "snd (exec svc env_ok OpLastCheques (world_of store1 []))",
        THEN conjunct2, THEN conjunct2, THEN conjunct1] b
    by simp
  have c4: "counter (kv (snd (run svc calls1 (world_of [] [])))) = Inr 17"
    using total_issued_counter [where w = "world_of [] []" and s = svc and calls = calls1
        and n = 17 and w' = "snd (run svc calls1 (world_of [] []))" and t = 0,
        THEN conjunct2, THEN conjunct2, THEN conjunct2] a b
    by (simp add: prod_eq_iff)
  from a c1 c2 c3 c4 show ?thesis by (simp add: store1_facts)
qed


text \<open>
  Claim C10. \<open>Issue\<close> never compares the amount with zero. Whenever the amount is at most
  the available balance (the store answering, the beneficiary's entry readable), the
  cheque with cumulative payout "previous plus amount" is handed to the signer; when the
  signer answers it is handed to the delivery function; when the delivery succeeds
  \<open>Issue\<close> returns no error, that cheque is the beneficiary's entry and the counter has
  grown by the amount. With a negative amount the saved cumulative payout is smaller than
  before and the counter has decreased.
\<close>

theorem Issue_takes_any_amount_within_funds:
  assumes "fault_free w" and "counter (kv w) = Inr issued" and "Balance e = Inr balance"
    and "TotalPaidOut e = Inr totalPaidOut" and "amount \<le> balance + totalPaidOut - issued"
    and "ledger_readable (kv w) b"
    and "c = \<lparr>Chequebook = address s, Beneficiary = b,
               CumulativePayout = payout (kv w) b + amount\<rparr>"
  shows "signedLog (snd (Issue s e b amount f w)) = signedLog w @ [c] \<and>
         (Sign e c = Inr sig \<longrightarrow>
            deliveredLog (snd (Issue s e b amount f w)) =
              deliveredLog w @ [\<lparr>Cheque = c, Signature = sig\<rparr>]) \<and>
         (Sign e c = Inr sig \<longrightarrow> f \<lparr>Cheque = c, Signature = sig\<rparr> = None \<longrightarrow>
            fst (Issue s e b amount f w) = None \<and>
            map_of (kv (snd (Issue s e b amount f w))) (lastIssuedChequeKey b) = Some (StoredCheque c) \<and>
            payout (kv (snd (Issue s e b amount f w))) b = payout (kv w) b + amount \<and>
            counter (kv (snd (Issue s e b amount f w))) = Inr (issued + amount)) \<and>
         (Sign e c = Inr sig \<longrightarrow> f \<lparr>Cheque = c, Signature = sig\<rparr> = None \<longrightarrow> amount < 0 \<longrightarrow>
            payout (kv (snd (Issue s e b amount f w))) b < payout (kv w) b \<and>
            counter (kv (snd (Issue s e b amount f w))) = Inr (issued + amount) \<and>
            issued + amount < issued)"
proof -
  obtain w2 where ise: "Issue s e b amount f w = Issue_send s e b amount f (payout (kv w) b) w2"
    and f2: "fault_free w2" and s2: "same_data w w2"
    using Issue_reaches_signer [OF assms(1-6)] by blast
  have d2: "kv w2 = kv w" "signedLog w2 = signedLog w" "deliveredLog w2 = deliveredLog w"
    using s2 by (simp_all add: same_data_def)
  obtain r w' where rw: "Issue_send s e b amount f (payout (kv w) b) w2 = (r, w')"
    by (cases "Issue_send s e b amount f (payout (kv w) b) w2")
  note out = Issue_send_outcome [OF rw assms(7), unfolded d2]
  have sl: "signedLog w' = signedLog w @ [c]"
    using out Issue_save_outcome by (elim disjE exE conjE) simp_all
  have dl: "deliveredLog w' = deliveredLog w @ [\<lparr>Cheque = c, Signature = sig\<rparr>]"
    if "Sign e c = Inr sig"
    using out that Issue_save_outcome by (elim disjE exE conjE) simp_all
  have ok: "r = None \<and> map_of (kv w') (lastIssuedChequeKey b) = Some (StoredCheque c) \<and>
      payout (kv w') b = payout (kv w) b + amount \<and>
      counter (kv w') = Inr (issued + amount)"
    if sg: "Sign e c = Inr sig" and dv: "f \<lparr>Cheque = c, Signature = sig\<rparr> = None"
  proof -
    let ?w3 = "w2\<lparr>signedLog := signedLog w2 @ [c],
                 deliveredLog := deliveredLog w2 @ [\<lparr>Cheque = c, Signature = sig\<rparr>]\<rparr>"
    have "Issue_send s e b amount f (payout (kv w) b) w2 = Issue_save b amount c ?w3"
      using sg dv assms(7) by (simp add: Issue_send_def Let_def)
    moreover have "fault_free ?w3" using f2 by (simp add: fault_free_def)
    moreover have "counter (kv ?w3) = Inr issued" using d2 assms(2) by simp
    ultimately obtain w4 where "Issue_send s e b amount f (payout (kv w) b) w2 = (None, w4)"
      and "kv w4 = AList.update totalIssuedKey (StoredInt (issued + amount))
                     (AList.update (lastIssuedChequeKey b) (StoredCheque c) (kv ?w3))"
      using Issue_save_free [of ?w3 issued b amount c] by auto
    with rw d2 assms(7) show ?thesis by (simp add: update_conv')
  qed
  show ?thesis
    unfolding ise rw using sl dl ok by simp
qed

theorem Issue_takes_any_amount_within_funds_witness:
  "fst (Issue svc env_ok beneficiary1 (- 5) (\<lambda>c. None) (world_of store1 [])) = None \<and>
   payout store1 beneficiary1 = 30 \<and>
   payout (kv (snd (Issue svc env_ok beneficiary1 (- 5) (\<lambda>c. None) (world_of store1 [])))) beneficiary1 = 25 \<and>
   counter store1 = Inr 30 \<and>
   counter (kv (snd (Issue svc env_ok beneficiary1 (- 5) (\<lambda>c. None) (world_of store1 [])))) = Inr 25"
  using Issue_takes_any_amount_within_funds [where w = "world_of store1 []" and issued = 30
      and e = env_ok and balance = 100 and totalPaidOut = 20 and amount = "- 5"
      and b = beneficiary1 and s = svc and sig = "[7]" and f = "\<lambda>c. None",
      OF _ _ _ _ _ _ refl]
  by (simp add: store1_facts env_ok_def)


subsection \<open>Withdrawing\<close>

text \<open>
  Claim C8. \<open>Withdraw\<close> compares the amount with what \<open>AvailableBalance\<close> returned. When the
  amount is greater it returns \<open>ErrInsufficientFunds\<close> and sends no transaction. Otherwise,
  the call data being packed, it sends one transaction to the chequebook contract with
  that call data and returns what \<open>Send\<close> returns, the transaction hash or the error.
\<close>

theorem Withdraw_checks_available_balance:
  assumes "fst (AvailableBalance e w) = Inr available"
  shows "(available < amount \<longrightarrow>
            fst (Withdraw s e amount w) = Inl ErrInsufficientFunds \<and>
            sentLog (snd (Withdraw s e amount w)) = sentLog w) \<and>
         (amount \<le> available \<longrightarrow> chequebookPack e ''withdraw'' [ArgUint amount] = Inr callData \<longrightarrow>
            sentLog (snd (Withdraw s e amount w)) =
              sentLog w @ [\<lparr>To = address s, Data = callData, GasPrice = None, GasLimit = 0,
                             Value = 0\<rparr>] \<and>
            fst (Withdraw s e amount w) =
              Send e \<lparr>To = address s, Data = callData, GasPrice = None, GasLimit = 0, Value = 0\<rparr>)"
proof -
  obtain w1 where ab: "AvailableBalance e w = (Inr available, w1)"
    using assms by (cases "AvailableBalance e w") simp
  have sl: "sentLog w1 = sentLog w" using AvailableBalance_same [OF ab] by (simp add: same_data_def)
  show ?thesis
    using ab sl by (auto simp: Withdraw_def Let_def split: sum.splits)
qed

theorem Withdraw_checks_available_balance_witness:
  "fst (AvailableBalance env_ok (world_of store1 [])) = Inr 90 \<and>
   fst (Withdraw svc env_ok 91 (world_of store1 [])) = Inl ErrInsufficientFunds \<and>
   sentLog (snd (Withdraw svc env_ok 91 (world_of store1 []))) = [] \<and>
   fst (Withdraw svc env_ok 90 (world_of store1 [])) = Inr [9] \<and>
   sentLog (snd (Withdraw svc env_ok 90 (world_of store1 []))) =
     [\<lparr>To = address svc, Data = [2], GasPrice = None, GasLimit = 0, Value = 0\<rparr>]"
proof -
  have a: "fst (AvailableBalance env_ok (world_of store1 [])) = Inr 90"
    by (simp add: AvailableBalance_def totalIssued_def store_Get_def next_fault_def world_of_def
        store1_def env_ok_def)
  show ?thesis
    using a Withdraw_checks_available_balance [OF a, of 91 svc "[2]"]
      Withdraw_checks_available_balance [OF a, of 90 svc "[2]"]
    by (simp add: env_ok_def)
qed

subsection \<open>The last cheques of all beneficiaries\<close>

text \<open>
  Claim C6, as amended. A key under the ledger prefix that \<open>keyBeneficiary\<close> rejects makes
  \<open>LastCheques\<close> return an error and no map. \<open>keyBeneficiary\<close> rejects a key under the
  prefix exactly when the prefix occurs again in what follows it; every other suffix is
  handed to \<open>HexToAddress\<close>, which returns an address for every string.
\<close>

theorem LastCheques_unsplittable_key:
  "((k, v) \<in> set (kv w) \<longrightarrow> HasPrefix k lastIssuedChequeKeyPrefix \<longrightarrow>
      keyBeneficiary k lastIssuedChequeKeyPrefix = Inl err \<longrightarrow>
      (\<exists>e. fst (LastCheques w) = Inl e)) \<and>
   keyBeneficiary (lastIssuedChequeKeyPrefix @ suffix) lastIssuedChequeKeyPrefix =
     (if Index suffix lastIssuedChequeKeyPrefix = None then Inr (HexToAddress suffix)
      else Inl ErrNoBeneficiaryInKey)"
proof (intro conjI impI)
  assume kv: "(k, v) \<in> set (kv w)" and pre: "HasPrefix k lastIssuedChequeKeyPrefix"
    and bad: "keyBeneficiary k lastIssuedChequeKeyPrefix = Inl err"
  obtain f w1 where nf: "next_fault w = (f, w1)" by (cases "next_fault w")
  show "\<exists>e. fst (LastCheques w) = Inl e"
  proof (cases f)
    case (Some msg)
    with nf show ?thesis by (simp add: LastCheques_def store_Iterate_def)
  next
    case None
    have "kv w1 = kv w" using next_fault_same [OF nf] by (simp add: same_data_def)
    with kv pre
    have "(k, v) \<in> set (filter (\<lambda>(k, v). HasPrefix k lastIssuedChequeKeyPrefix) (kv w1))"
      by simp
    from iterate_loop_bad_key [OF this bad] None nf show ?thesis
      by (simp add: LastCheques_def store_Iterate_def)
  qed
next
  show "keyBeneficiary (lastIssuedChequeKeyPrefix @ suffix) lastIssuedChequeKeyPrefix =
     (if Index suffix lastIssuedChequeKeyPrefix = None then Inr (HexToAddress suffix)
      else Inl ErrNoBeneficiaryInKey)"
    by (rule keyBeneficiary_ledger_key) (simp add: lastIssuedChequeKeyPrefix_def)
qed

theorem LastCheques_unsplittable_key_witness:
  "HasPrefix doubled_key lastIssuedChequeKeyPrefix \<and>
   keyBeneficiary doubled_key lastIssuedChequeKeyPrefix = Inl ErrNoBeneficiaryInKey \<and>
   (\<exists>e. fst (LastCheques (world_of (store1 @ [(doubled_key, StoredCheque cheque1)]) [])) = Inl e)"
  using LastCheques_unsplittable_key [of doubled_key "StoredCheque cheque1"
      "world_of (store1 @ [(doubled_key, StoredCheque cheque1)]) []" ErrNoBeneficiaryInKey]
    eval_doubled_key
  by simp


text \<open>
  Claim C6 as it is stated fails. The suffix \<open>zz\<close> has no hexadecimal digit and is read as
  the zero address; the suffix made of an address and \<open>zz\<close> is read as that address. In
  both stores the other key is the one the service writes for the address read, and
  \<open>LastCheques\<close> returns a map.
\<close>

theorem LastCheques_junk_suffix_counterexample:
  "HasPrefix zz_key lastIssuedChequeKeyPrefix \<and>
   fromHexChar CHR ''z'' = None \<and>
   \<not> canonical_key zz_key \<and>
   \<not> isl (fst (LastCheques (world_of [(zz_key, StoredCheque cheque1),
       (lastIssuedChequeKey (replicate 20 0), StoredCheque cheque2)] []))) \<and>
   projr (fst (LastCheques (world_of [(zz_key, StoredCheque cheque1),
       (lastIssuedChequeKey (replicate 20 0), StoredCheque cheque2)] []))) (replicate 20 0) =
     Some \<lparr>Cheque = cheque2, Signature = []\<rparr> \<and>
   HasPrefix junk_key lastIssuedChequeKeyPrefix \<and>
   \<not> canonical_key junk_key \<and>
   \<not> isl (fst (LastCheques (world_of [(lastIssuedChequeKey beneficiary1, StoredCheque cheque1),
       (junk_key, StoredCheque cheque1)] []))) \<and>
   projr (fst (LastCheques (world_of [(lastIssuedChequeKey beneficiary1, StoredCheque cheque1),
       (junk_key, StoredCheque cheque1)] []))) beneficiary1 =
     Some \<lparr>Cheque = cheque1, Signature = []\<rparr>"
  by code_simp


text \<open>
  Claim C7, as amended. Let the store answer every call. \<open>LastCheques\<close> returns a map
  exactly when \<open>keyBeneficiary\<close> reads a beneficiary from every key under the ledger prefix
  and \<open>LastCheque\<close> returns a cheque for each beneficiary so read. In that case the store is
  left as it was; a beneficiary (an address of 20 bytes) is in the map exactly when the
  store has its key, and the map gives it what \<open>LastCheque\<close> returns for it. A beneficiary
  that is already in the map is skipped: the visiting function leaves the map and the
  world alone, and the whole scan makes one call for the iteration and one \<open>Get\<close> for each
  beneficiary of the map, however many keys are read as that beneficiary.
\<close>

theorem LastCheques_resolvable_ledger:
  assumes "fault_free w"
  shows "(\<not> isl (fst (LastCheques w))) = ledger_resolvable (kv w) \<and>
         (ledger_resolvable (kv w) \<longrightarrow>
            (\<exists>m. fst (LastCheques w) = Inr m \<and> kv (snd (LastCheques w)) = kv w \<and>
               (\<forall>b. (m b \<noteq> None) =
                  (length b = 20 \<and> lastIssuedChequeKey b \<in> fst ` set (kv w))) \<and>
               (\<forall>b sc. m b = Some sc \<longrightarrow> fst (LastCheque b w) = Inr sc) \<and>
               finite (dom m) \<and>
               faults (snd (LastCheques w)) = drop (1 + card (dom m)) (faults w))) \<and>
         (keyBeneficiary key lastIssuedChequeKeyPrefix = Inr addr \<longrightarrow> result addr = Some present \<longrightarrow>
            LastCheques_visit key val result w0 = (Inr (False, result), w0))"
proof (intro conjI)
  let ?entries = "filter (\<lambda>(k, v). HasPrefix k lastIssuedChequeKeyPrefix) (kv w)"
  obtain f w1 where nf: "next_fault w = (f, w1)" by (cases "next_fault w")
  with assms have f: "f = None" and f1: "fault_free w1" and kv1: "kv w1 = kv w"
    and sch1: "faults w1 = drop 1 (faults w)"
    using next_fault_free [OF assms nf] next_fault_same [OF nf] next_fault_schedule [OF nf]
    by (simp_all add: same_data_def)
  have lc_it: "LastCheques w = iterate_loop LastCheques_visit ?entries Map.empty w1"
    using nf f kv1 by (simp add: LastCheques_def store_Iterate_def)
  have emp: "\<forall>a sc. Map.empty a = Some sc \<longrightarrow> read_entry (kv w) a = Inr sc" by simp
  have forward: "\<exists>m. fst (LastCheques w) = Inr m \<and> kv (snd (LastCheques w)) = kv w \<and>
               (\<forall>b. (m b \<noteq> None) =
                  (length b = 20 \<and> lastIssuedChequeKey b \<in> fst ` set (kv w))) \<and>
               (\<forall>b sc. m b = Some sc \<longrightarrow> fst (LastCheque b w) = Inr sc) \<and>
               finite (dom m) \<and>
               faults (snd (LastCheques w)) = drop (1 + card (dom m)) (faults w)"
    if res: "ledger_resolvable (kv w)"
  proof -
    have ent: "\<forall>(k, v) \<in> set ?entries.
        \<exists>a sc. keyBeneficiary k lastIssuedChequeKeyPrefix = Inr a \<and> read_entry (kv w) a = Inr sc"
      using res unfolding resolvable_iff .
    from iterate_loop_resolvable [OF f1 kv1 ent emp]
    obtain m w' where it: "iterate_loop LastCheques_visit ?entries Map.empty w1 = (Inr m, w')"
      and kv': "kv w' = kv w"
      and dom: "\<forall>a. (m a \<noteq> None) =
          (\<exists>(k, v) \<in> set ?entries. keyBeneficiary k lastIssuedChequeKeyPrefix = Inr a)"
      and val: "\<forall>a sc. m a = Some sc \<longrightarrow> read_entry (kv w) a = Inr sc"
      and fin: "finite (dom m)"
      and fl: "faults w' = drop (card (dom m)) (faults w1)"
      by auto
    have dom': "(m b \<noteq> None) = (length b = 20 \<and> lastIssuedChequeKey b \<in> fst ` set (kv w))" for b
    proof
      assume "m b \<noteq> None"
      then obtain sc where sc: "m b = Some sc" by auto
      from \<open>m b \<noteq> None\<close> dom obtain k where "keyBeneficiary k lastIssuedChequeKeyPrefix = Inr b"
        by auto
      then have "length b = 20" by (rule keyBeneficiary_length)
      moreover have "lastIssuedChequeKey b \<in> fst ` set (kv w)"
        using val sc read_entry_key by blast
      ultimately show "length b = 20 \<and> lastIssuedChequeKey b \<in> fst ` set (kv w)" by simp
    next
      assume b: "length b = 20 \<and> lastIssuedChequeKey b \<in> fst ` set (kv w)"
      then obtain v where "(lastIssuedChequeKey b, v) \<in> set (kv w)" by auto
      then have "(lastIssuedChequeKey b, v) \<in> set ?entries" by simp
      moreover have "keyBeneficiary (lastIssuedChequeKey b) lastIssuedChequeKeyPrefix = Inr b"
        using b keyBeneficiary_written by simp
      ultimately show "m b \<noteq> None" using dom by blast
    qed
    have val': "fst (LastCheque b w) = Inr sc" if "m b = Some sc" for b sc
      using val that LastCheque_read_entry [OF assms, of b] by auto
    have fl': "faults w' = drop (1 + card (dom m)) (faults w)"
      using fl sch1 by (simp only: drop_drop) (simp add: add.commute)
    from lc_it it kv' dom' val' fin fl' show ?thesis by auto
  qed
  then show "ledger_resolvable (kv w) \<longrightarrow>
            (\<exists>m. fst (LastCheques w) = Inr m \<and> kv (snd (LastCheques w)) = kv w \<and>
               (\<forall>b. (m b \<noteq> None) =
                  (length b = 20 \<and> lastIssuedChequeKey b \<in> fst ` set (kv w))) \<and>
               (\<forall>b sc. m b = Some sc \<longrightarrow> fst (LastCheque b w) = Inr sc) \<and>
               finite (dom m) \<and>
               faults (snd (LastCheques w)) = drop (1 + card (dom m)) (faults w))"
    by blast
  show "(\<not> isl (fst (LastCheques w))) = ledger_resolvable (kv w)"
  proof
    assume "\<not> isl (fst (LastCheques w))"
    then obtain m w' where "iterate_loop LastCheques_visit ?entries Map.empty w1 = (Inr m, w')"
      unfolding lc_it
      by (cases "iterate_loop LastCheques_visit ?entries Map.empty w1";
          cases "fst (iterate_loop LastCheques_visit ?entries Map.empty w1)") auto
    from iterate_loop_needs_resolvable [OF f1 kv1 emp this]
    show "ledger_resolvable (kv w)" unfolding resolvable_iff .
  next
    assume "ledger_resolvable (kv w)"
    from forward [OF this] show "\<not> isl (fst (LastCheques w))" by auto
  qed
  show "keyBeneficiary key lastIssuedChequeKeyPrefix = Inr addr \<longrightarrow> result addr = Some present \<longrightarrow>
            LastCheques_visit key val result w0 = (Inr (False, result), w0)"
    by (simp add: LastCheques_visit_def)
qed

theorem LastCheques_resolvable_ledger_witness:
  "fault_free (world_of store3 [None, None, None, None, None]) \<and>
   ledger_resolvable store3 \<and>
   keyBeneficiary junk_key lastIssuedChequeKeyPrefix = Inr beneficiary1 \<and>
   (\<exists>m. fst (LastCheques (world_of store3 [None, None, None, None, None])) = Inr m \<and>
        m beneficiary1 = Some \<lparr>Cheque = cheque1, Signature = []\<rparr> \<and>
        m beneficiary2 = Some \<lparr>Cheque = cheque2, Signature = []\<rparr> \<and>
        dom m = {beneficiary1, beneficiary2}) \<and>
   faults (snd (LastCheques (world_of store3 [None, None, None, None, None]))) = [None, None]"
proof -
  let ?w = "world_of store3 [None, None, None, None, None]"
  have ff: "fault_free ?w" by (simp add: fault_free_def)
  have res: "ledger_resolvable (kv ?w)" using eval_store3(1) by simp
  from LastCheques_resolvable_ledger [OF ff, THEN conjunct2, THEN conjunct1, rule_format, OF res]
  obtain m where m: "fst (LastCheques ?w) = Inr m"
    and dom: "\<And>b. (m b \<noteq> None) = (length b = 20 \<and> lastIssuedChequeKey b \<in> fst ` set store3)"
    and val: "\<And>b sc. m b = Some sc \<Longrightarrow> fst (LastCheque b ?w) = Inr sc"
    and fl: "faults (snd (LastCheques ?w)) = drop (1 + card (dom m)) (faults ?w)"
    by auto
  have len: "length beneficiary1 = 20" "length beneficiary2 = 20"
    by (simp_all add: beneficiary1_def beneficiary2_def)
  have ne: "beneficiary1 \<noteq> beneficiary2" by (simp add: beneficiary1_def beneficiary2_def)
  have keys: "(length b = 20 \<and> lastIssuedChequeKey b \<in> fst ` set store3) =
      (b = beneficiary1 \<or> b = beneficiary2)" for b
  proof -
    have "lastIssuedChequeKey b \<noteq> junk_key" if "length b = 20"
      using that lastIssuedChequeKey_length [of b] lastIssuedChequeKey_length [of beneficiary1] len
      by (auto simp: junk_key_def)
    then show ?thesis using len lastIssuedChequeKey_inj [of b] by (auto simp: store3_def)
  qed
  have d: "dom m = {beneficiary1, beneficiary2}" using dom keys by (auto simp: domIff)
  then have "m beneficiary1 \<noteq> None" "m beneficiary2 \<noteq> None" by (auto simp: domIff)
  then have 1: "m beneficiary1 = Some \<lparr>Cheque = cheque1, Signature = []\<rparr>"
    and 2: "m beneficiary2 = Some \<lparr>Cheque = cheque2, Signature = []\<rparr>"
    using val eval_store3(4,5) by auto
  have "card (dom m) = 2" using d ne by simp
  with fl have 3: "faults (snd (LastCheques ?w)) = [None, None]" by simp
  from ff eval_store3(1,3) m 1 2 d 3 show ?thesis by blast
qed


text \<open>
  Claim C7 as it is stated fails. The key with the address in upper case is accepted by
  \<open>keyBeneficiary\<close>, which reads the beneficiary from it, but \<open>LastCheque\<close> looks for the
  key in lower case, finds none, and \<open>LastCheques\<close> returns \<open>ErrNoCheque\<close>.
\<close>

theorem LastCheques_upper_case_key_counterexample:
  "HasPrefix upper_key lastIssuedChequeKeyPrefix \<and>
   keyBeneficiary upper_key lastIssuedChequeKeyPrefix = Inr beneficiary1 \<and>
   isl (fst (LastCheques (world_of [(upper_key, StoredCheque cheque1)] []))) \<and>
   projl (fst (LastCheques (world_of [(upper_key, StoredCheque cheque1)] []))) = ErrNoCheque"
  by code_simp


end
